theory Spec2Isabelle
  imports Main "HOL-Library.Word" "HOL-Library.AList"
begin

section \<open>Shared types\<close>

text \<open>
  The model follows the vendored package grpcfd: \<^verbatim>\<open>url.go\<close> (the identity codec),
  \<^verbatim>\<open>connwrap_linux.go\<close> (the connection wrapper) and
  \<^verbatim>\<open>per_rpc_transport_credentials.go\<close> (the per-call credential adapter).

  Descriptors are natural numbers; the source converts them between \<^verbatim>\<open>int\<close> and
  \<^verbatim>\<open>uintptr\<close>, which is the identity on descriptor numbers. Device and inode numbers are
  \<^verbatim>\<open>uint64\<close>. A channel value is the address of a channel: an index into a heap of
  channel states.
\<close>

type_synonym uint64 = "64 word"
type_synonym byte = "8 word"
type_synonym fd = nat
type_synonym chan = nat

datatype error =
    ErrSyntax string
  | ErrRange string
  | SchemeError string
  | OtherError string
  | Errno nat
  | ConnectionClosed fd
  | WithStack error

text \<open>
  What stops a goroutine instead of returning: the run-time panics of Go that the modelled
  code can reach, and a send that finds the one-slot buffer of its channel full.
\<close>

datatype fault =
    IndexOutOfRange
  | SliceOutOfRange
  | SendOnClosedChannel
  | CloseOfClosedChannel
  | NoSuchChannel
  | SendBlocks

section \<open>Identity codec (url.go)\<close>

text \<open>The three fields of \<^verbatim>\<open>url.URL\<close> that the package sets and reads.\<close>

record URL =
  Scheme :: string
  Host :: string
  Path :: string

record Stat_t =
  Dev :: uint64
  Ino :: uint64

text \<open>
  \<^verbatim>\<open>fmt.Sprintf("%d", v)\<close> for an unsigned 64-bit value: the decimal digits, most
  significant first, no sign and no leading zero.
\<close>

definition digit_char :: "nat \<Rightarrow> char" where
  "digit_char d = ''0123456789'' ! d"

fun FormatUint :: "nat \<Rightarrow> string" where
  "FormatUint n =
     (if n < 10 then [digit_char n] else FormatUint (n div 10) @ [digit_char (n mod 10)])"

definition Sprintf_d :: "uint64 \<Rightarrow> string" where
  "Sprintf_d v = FormatUint (unat v)"

text \<open>
  \<^verbatim>\<open>strconv.ParseUint(s, 10, 64)\<close>: the empty string is a syntax error; the characters
  are read left to right; a character that is not a decimal digit is a syntax error (a
  sign or an underscore too); a value that leaves 64 bits is a range error, reported at
  the digit where it happens.
\<close>

definition maxUint64 :: nat where
  "maxUint64 = 2 ^ 64 - 1"

definition cutoff :: nat where
  "cutoff = maxUint64 div 10 + 1"

definition is_digit :: "char \<Rightarrow> bool" where
  "is_digit c = (48 \<le> (of_char c :: nat) \<and> (of_char c :: nat) \<le> 57)"

fun parse_digits :: "string \<Rightarrow> nat \<Rightarrow> string \<Rightarrow> error + nat" where
  "parse_digits s0 n [] = Inr n"
| "parse_digits s0 n (c # cs) =
     (if \<not> is_digit c then Inl (ErrSyntax s0)
      else if cutoff \<le> n then Inl (ErrRange s0)
      else let n1 = n * 10 + (of_char c - 48)
           in if maxUint64 < n1 then Inl (ErrRange s0) else parse_digits s0 n1 cs)"

definition ParseUint :: "string \<Rightarrow> error + uint64" where
  "ParseUint s =
     (if s = [] then Inl (ErrSyntax s)
      else case parse_digits s 0 s of Inl e \<Rightarrow> Inl e | Inr n \<Rightarrow> Inr (of_nat n))"

text \<open>The value a string of decimal digits denotes, continuing from \<open>n\<close>.\<close>

definition decimal_value :: "nat \<Rightarrow> string \<Rightarrow> nat" where
  "decimal_value n cs = foldl (\<lambda>a c. a * 10 + (of_char c - 48)) n cs"

text \<open>
  A string that is a non-negative decimal integer fitting in 64 bits: not empty, decimal
  digits only, and a value of at most \<open>2^64 - 1\<close>.
\<close>

definition decimal_uint64 :: "string \<Rightarrow> bool" where
  "decimal_uint64 s = (s \<noteq> [] \<and> list_all is_digit s \<and> decimal_value 0 s \<le> maxUint64)"

definition TrimPrefix :: "string \<Rightarrow> string \<Rightarrow> string" where
  "TrimPrefix s p = (if take (length p) s = p then drop (length p) s else s)"

text \<open>
  \<^verbatim>\<open>(*url.URL).String\<close> on a URL with a scheme and a host, no user, query or fragment,
  whose host and path need no escaping (the URLs \<open>FDToURL\<close> builds): a path that does
  not start with a slash gets one.
\<close>

definition URL_String :: "URL \<Rightarrow> string" where
  "URL_String u =
     Scheme u @ '':'' @ ''//'' @ Host u @
     (if Path u \<noteq> [] \<and> hd (Path u) \<noteq> CHR ''/'' then ''/'' else []) @ Path u"

text \<open>
  \<open>FDToURL\<close> asks the kernel for the descriptor's identity; \<open>fstat\<close> is the outcome
  of \<^verbatim>\<open>syscall.Fstat\<close> on each descriptor.
\<close>

definition FDToURL :: "(fd \<Rightarrow> error + Stat_t) \<Rightarrow> fd \<Rightarrow> error + URL" where
  "FDToURL fstat d =
     (case fstat d of
        Inl e \<Rightarrow> Inl (WithStack e)
      | Inr st \<Rightarrow> Inr \<lparr>Scheme = ''inode'', Host = Sprintf_d (Dev st), Path = Sprintf_d (Ino st)\<rparr>)"

definition URLToDevIno :: "URL \<Rightarrow> error + uint64 \<times> uint64" where
  "URLToDevIno u =
     (if Scheme u \<noteq> ''inode'' then Inl (SchemeError (Scheme u))
      else case ParseUint (Host u) of
        Inl e \<Rightarrow> Inl (WithStack e)
      | Inr dv \<Rightarrow>
          (case ParseUint (TrimPrefix (Path u) ''/'') of
             Inl e \<Rightarrow> Inl (WithStack e)
           | Inr iv \<Rightarrow> Inr (dv, iv)))"

text \<open>
  \<^verbatim>\<open>url.Parse\<close> belongs to Go's standard library; it is a parameter of the model.
\<close>

definition URLStringToDevIno :: "(string \<Rightarrow> error + URL) \<Rightarrow> string \<Rightarrow> error + uint64 \<times> uint64" where
  "URLStringToDevIno url_Parse urlstr =
     (case url_Parse urlstr of Inl e \<Rightarrow> Inl e | Inr u \<Rightarrow> URLToDevIno u)"

section \<open>Channels\<close>

text \<open>
  Every channel of the package is made with a buffer of one value. A channel state is the
  buffered values and the closed flag; a heap of channels is a list, and \<open>make\<close> puts the
  new channel at the end, so the address of a new channel is an address no older channel
  has. Sending on a closed channel and closing a closed channel panic; sending into a full
  buffer blocks the sender.
\<close>

record 'a channel =
  buf :: "'a list"
  closed :: bool

definition make_chan :: "'a channel list \<Rightarrow> chan \<times> 'a channel list" where
  "make_chan h = (length h, h @ [\<lparr>buf = [], closed = False\<rparr>])"

definition chan_send :: "chan \<Rightarrow> 'a \<Rightarrow> 'a channel list \<Rightarrow> fault + 'a channel list" where
  "chan_send c v h =
     (if length h \<le> c then Inl NoSuchChannel
      else if closed (h ! c) then Inl SendOnClosedChannel
      else if 1 \<le> length (buf (h ! c)) then Inl SendBlocks
      else Inr (h[c := (h ! c)\<lparr>buf := buf (h ! c) @ [v]\<rparr>]))"

definition chan_close :: "chan \<Rightarrow> 'a channel list \<Rightarrow> fault + 'a channel list" where
  "chan_close c h =
     (if length h \<le> c then Inl NoSuchChannel
      else if closed (h ! c) then Inl CloseOfClosedChannel
      else Inr (h[c := (h ! c)\<lparr>closed := True\<rparr>]))"

text \<open>A channel that was made and never used: open, with nothing in its buffer.\<close>

definition unused :: "'a channel list \<Rightarrow> chan \<Rightarrow> bool" where
  "unused h c = (c < length h \<and> h ! c = \<lparr>buf = [], closed = False\<rparr>)"

text \<open>
  The state of a channel that was closed after the values \<open>vs\<close> were sent on it, written
  into the heap at its address; \<open>fold settle\<close> does so for a list of channels.
\<close>

definition settle :: "chan \<times> 'a list \<Rightarrow> 'a channel list \<Rightarrow> 'a channel list" where
  "settle p h = h[fst p := \<lparr>buf = snd p, closed = True\<rparr>]"

section \<open>Connection wrapper (connwrap_linux.go)\<close>

definition maxFDCount :: nat where
  "maxFDCount = 64"

record inodeKey =
  dev :: uint64
  ino :: uint64

text \<open>
  The wrapper's fields. The two Go maps are association lists, read with \<open>map_of\<close> and
  written with \<open>AList.update\<close> and \<open>AList.delete\<close>; a loop over a map visits the
  entries in list order (Go leaves the order open).
\<close>

record connWrap =
  sendFDs :: "fd list"
  errChs :: "chan list"
  recvFDChans :: "(inodeKey \<times> chan list) list"
  recvedFDs :: "(inodeKey \<times> fd) list"

text \<open>The wrapper \<open>wrapConn\<close> builds: two empty maps, nothing queued.\<close>

definition wrapConn :: connWrap where
  "wrapConn = \<lparr>sendFDs = [], errChs = [], recvFDChans = [], recvedFDs = []\<rparr>"

text \<open>
  What the wrapper acts on outside its own fields: the channels it has made, and the calls
  it has made on the kernel and on the wrapped connection, in call order. \<open>closedFDs\<close>
  are the descriptors given to \<^verbatim>\<open>syscall.Close\<close> and \<open>dups\<close> those given to
  \<^verbatim>\<open>fcntl(F_DUPFD)\<close>; \<open>wire\<close> has one entry for each write on the wrapped connection,
  the bytes written and, for a \<open>WriteMsgUnix\<close>, the descriptor in its ancillary data;
  \<open>connCloses\<close> counts the calls of \<open>Close\<close> on the wrapped connection; \<open>relays\<close> are
  the goroutines \<open>RecvFile\<close> has started, each the channel it reads and the channel it
  writes. A file is known by its descriptor, so a channel of files holds descriptors.
\<close>

record world =
  errChans :: "error channel list"
  fdChans :: "fd channel list"
  fileChans :: "fd channel list"
  closedFDs :: "fd list"
  dups :: "fd list"
  wire :: "(byte list \<times> fd option) list"
  connCloses :: nat
  relays :: "(chan \<times> chan) list"

definition new_world :: world where
  "new_world = \<lparr>errChans = [], fdChans = [], fileChans = [], closedFDs = [], dups = [], wire = [],
     connCloses = 0, relays = []\<rparr>"

text \<open>
  The outcomes the kernel and the wrapped connection choose. \<open>F_DUPFD n d\<close> is the pair
  (new descriptor, errno) that the call \<^verbatim>\<open>fcntl(d, F_DUPFD, 0)\<close> returns when \<open>n\<close>
  duplications came before it; \<open>WriteMsgUnix n\<close> and \<open>ConnWrite n\<close> are the outcomes of
  a write when \<open>n\<close> writes came before it; \<open>ConnClose n\<close> is the outcome of closing the
  wrapped connection for the \<open>n\<close>-th time.
\<close>

record os =
  Fstat :: "fd \<Rightarrow> error + Stat_t"
  F_DUPFD :: "nat \<Rightarrow> fd \<Rightarrow> fd \<times> nat"
  WriteMsgUnix :: "nat \<Rightarrow> byte list \<Rightarrow> fd \<Rightarrow> error option"
  ConnWrite :: "nat \<Rightarrow> byte list \<Rightarrow> nat \<times> error option"
  ConnClose :: "nat \<Rightarrow> error option"

definition syscall_Close :: "fd \<Rightarrow> world \<Rightarrow> world" where
  "syscall_Close d s = s\<lparr>closedFDs := closedFDs s @ [d]\<rparr>"

definition fcntl_dupfd :: "os \<Rightarrow> fd \<Rightarrow> world \<Rightarrow> (fd \<times> nat) \<times> world" where
  "fcntl_dupfd k d s = (F_DUPFD k (length (dups s)) d, s\<lparr>dups := dups s @ [d]\<rparr>)"

text \<open>
  What the receiver of a duplicate gets from the duplication with number \<open>n\<close>, of the
  descriptor \<open>d\<close>: the new descriptor, or nothing when the duplication fails.
\<close>

definition delivered :: "os \<Rightarrow> nat \<Rightarrow> fd \<Rightarrow> fd list" where
  "delivered k n d = (if snd (F_DUPFD k n d) \<noteq> 0 then [] else [fst (F_DUPFD k n d)])"

subsection \<open>SendFD\<close>

fun SendFD :: "os \<Rightarrow> fd \<Rightarrow> connWrap \<times> world \<Rightarrow> fault + chan \<times> connWrap \<times> world" where
  "SendFD k d (w, s) =
     (let errCh = fst (make_chan (errChans s));
          s0 = s\<lparr>errChans := snd (make_chan (errChans s))\<rparr>;
          r = fst (fcntl_dupfd k d s0);
          s1 = snd (fcntl_dupfd k d s0)
      in if snd r \<noteq> 0 then
          (case chan_send errCh (WithStack (Errno (snd r))) (errChans s1) of
             Inl f \<Rightarrow> Inl f
           | Inr h1 \<Rightarrow>
               (case chan_close errCh h1 of
                  Inl f \<Rightarrow> Inl f
                | Inr h2 \<Rightarrow> Inr (errCh, w, s1\<lparr>errChans := h2\<rparr>)))
        else Inr (errCh, w\<lparr>sendFDs := sendFDs w @ [fst r], errChs := errChs w @ [errCh]\<rparr>, s1))"

subsection \<open>Write\<close>

text \<open>
  The loop of \<open>Write\<close> over the entries it took from the queue, from index \<open>i\<close> on.
  \<open>b[i]\<close> is read to build the argument of \<open>WriteMsgUnix\<close>, so a buffer with no byte
  at \<open>i\<close> panics before the message is written.
\<close>

fun Write_loop :: "os \<Rightarrow> byte list \<Rightarrow> chan list \<Rightarrow> nat \<Rightarrow> fd list \<Rightarrow> world \<Rightarrow> fault + world" where
  "Write_loop k b chs i [] s = Inr s"
| "Write_loop k b chs i (d # ds) s =
     (if length b \<le> i then Inl IndexOutOfRange
      else
        let err = WriteMsgUnix k (length (wire s)) [b ! i] d;
            s1 = s\<lparr>wire := wire s @ [([b ! i], Some d)]\<rparr>
        in if length chs \<le> i then Inl IndexOutOfRange
           else
             (case (case err of None \<Rightarrow> Inr (errChans s1)
                    | Some e \<Rightarrow> chan_send (chs ! i) e (errChans s1)) of
                Inl f \<Rightarrow> Inl f
              | Inr h1 \<Rightarrow>
                  (case chan_close (chs ! i) h1 of
                     Inl f \<Rightarrow> Inl f
                   | Inr h2 \<Rightarrow>
                       Write_loop k b chs (i + 1) ds (syscall_Close d (s1\<lparr>errChans := h2\<rparr>)))))"

text \<open>
  The number of entries one \<open>Write\<close> takes. The slice \<open>w.errChs[:limit]\<close> is modelled
  with the length of \<open>errChs\<close> as its capacity; \<open>SendFD\<close> appends to both slices
  together, so they are equally long whenever \<open>Write\<close> runs.
\<close>

definition Write_limit :: "connWrap \<Rightarrow> nat" where
  "Write_limit w =
     (if 0 < length (sendFDs w)
      then (if maxFDCount < length (sendFDs w) then maxFDCount else length (sendFDs w))
      else 0)"

fun Write :: "os \<Rightarrow> byte list \<Rightarrow> connWrap \<times> world \<Rightarrow> fault + (nat \<times> error option) \<times> connWrap \<times> world" where
  "Write k b (w, s) =
     (let limit = Write_limit w in
      if length (errChs w) < limit then Inl SliceOutOfRange
      else
        let ds = take limit (sendFDs w);
            chs = take limit (errChs w);
            w1 = w\<lparr>sendFDs := drop limit (sendFDs w), errChs := drop limit (errChs w)\<rparr>
        in case Write_loop k b chs 0 ds s of
             Inl f \<Rightarrow> Inl f
           | Inr s1 \<Rightarrow>
               if length b < length ds then Inl SliceOutOfRange
               else
                 (case ConnWrite k (length (wire s1)) (drop (length ds) b) of (n, err) \<Rightarrow>
                    Inr ((if err = None then n + length ds else n, err), w1,
                         s1\<lparr>wire := wire s1 @ [(drop (length ds) b, None)]\<rparr>)))"

subsection \<open>RecvFD, RecvFile and their URL forms\<close>

definition waiters :: "connWrap \<Rightarrow> inodeKey \<Rightarrow> chan list" where
  "waiters w key = (case map_of (recvFDChans w) key of None \<Rightarrow> [] | Some chs \<Rightarrow> chs)"

fun RecvFD :: "os \<Rightarrow> uint64 \<Rightarrow> uint64 \<Rightarrow> connWrap \<times> world \<Rightarrow> fault + chan \<times> connWrap \<times> world" where
  "RecvFD k dv iv (w, s) =
     (let fdCh = fst (make_chan (fdChans s));
          s0 = s\<lparr>fdChans := snd (make_chan (fdChans s))\<rparr>;
          key = \<lparr>dev = dv, ino = iv\<rparr>
      in case map_of (recvedFDs w) key of
        Some d \<Rightarrow>
          (let r = fst (fcntl_dupfd k d s0); s1 = snd (fcntl_dupfd k d s0) in
             if snd r \<noteq> 0 then
               (case chan_close fdCh (fdChans s1) of
                  Inl f \<Rightarrow> Inl f
                | Inr h1 \<Rightarrow> Inr (fdCh, w, s1\<lparr>fdChans := h1\<rparr>))
             else
               (case chan_send fdCh (fst r) (fdChans s1) of
                  Inl f \<Rightarrow> Inl f
                | Inr h1 \<Rightarrow>
                    (case chan_close fdCh h1 of
                       Inl f \<Rightarrow> Inl f
                     | Inr h2 \<Rightarrow> Inr (fdCh, w, s1\<lparr>fdChans := h2\<rparr>))))
      | None \<Rightarrow>
          Inr (fdCh, w\<lparr>recvFDChans := AList.update key (waiters w key @ [fdCh]) (recvFDChans w)\<rparr>, s0))"

definition RecvFDByURL ::
  "(string \<Rightarrow> error + URL) \<Rightarrow> os \<Rightarrow> string \<Rightarrow> connWrap \<times> world \<Rightarrow> fault + (error + chan) \<times> connWrap \<times> world" where
  "RecvFDByURL url_Parse k urlStr ws =
     (case URLStringToDevIno url_Parse urlStr of
        Inl e \<Rightarrow> Inr (Inl e, ws)
      | Inr (dv, iv) \<Rightarrow>
          (case RecvFD k dv iv ws of
             Inl f \<Rightarrow> Inl f
           | Inr (c, ws') \<Rightarrow> Inr (Inr c, ws')))"

text \<open>
  \<open>RecvFile\<close> makes the file channel, asks \<open>RecvFD\<close> for the descriptor channel and
  starts a goroutine that forwards the one into the other; the started goroutine is
  recorded in \<open>relays\<close>.
\<close>

fun RecvFile :: "os \<Rightarrow> uint64 \<Rightarrow> uint64 \<Rightarrow> connWrap \<times> world \<Rightarrow> fault + chan \<times> connWrap \<times> world" where
  "RecvFile k dv iv (w, s) =
     (let fileCh = fst (make_chan (fileChans s));
          s0 = s\<lparr>fileChans := snd (make_chan (fileChans s))\<rparr>
      in case RecvFD k dv iv (w, s0) of
        Inl f \<Rightarrow> Inl f
      | Inr (fdCh, w', s') \<Rightarrow> Inr (fileCh, w', s'\<lparr>relays := relays s' @ [(fdCh, fileCh)]\<rparr>))"

definition RecvFileByURL ::
  "(string \<Rightarrow> error + URL) \<Rightarrow> os \<Rightarrow> string \<Rightarrow> connWrap \<times> world \<Rightarrow> fault + (error + chan) \<times> connWrap \<times> world" where
  "RecvFileByURL url_Parse k urlStr ws =
     (case URLStringToDevIno url_Parse urlStr of
        Inl e \<Rightarrow> Inr (Inl e, ws)
      | Inr (dv, iv) \<Rightarrow>
          (case RecvFile k dv iv ws of
             Inl f \<Rightarrow> Inl f
           | Inr (c, ws') \<Rightarrow> Inr (Inr c, ws')))"

subsection \<open>Read\<close>

text \<open>
  The loop of \<open>Read\<close> over the waiters of an identity whose descriptor \<open>cached\<close> was
  just stored: one duplication for each waiter; a waiter whose duplication fails has its
  channel closed with nothing sent.
\<close>

fun resolve_waiters :: "os \<Rightarrow> fd \<Rightarrow> chan list \<Rightarrow> world \<Rightarrow> fault + world" where
  "resolve_waiters k cached [] s = Inr s"
| "resolve_waiters k cached (fdCh # chs) s =
     (let r = fst (fcntl_dupfd k cached s); s1 = snd (fcntl_dupfd k cached s) in
        if snd r \<noteq> 0 then
          (case chan_close fdCh (fdChans s1) of
             Inl f \<Rightarrow> Inl f
           | Inr h1 \<Rightarrow> resolve_waiters k cached chs (s1\<lparr>fdChans := h1\<rparr>))
        else
          (case chan_send fdCh (fst r) (fdChans s1) of
             Inl f \<Rightarrow> Inl f
           | Inr h1 \<Rightarrow>
               (case chan_close fdCh h1 of
                  Inl f \<Rightarrow> Inl f
                | Inr h2 \<Rightarrow> resolve_waiters k cached chs (s1\<lparr>fdChans := h2\<rparr>))))"

text \<open>The body of the innermost loop of \<open>Read\<close>: one descriptor found in the ancillary data.\<close>

fun arrival :: "os \<Rightarrow> fd \<Rightarrow> connWrap \<times> world \<Rightarrow> fault + connWrap \<times> world" where
  "arrival k d (w, s) =
     (case Fstat k d of
        Inl e \<Rightarrow> Inr (w, s)
      | Inr st \<Rightarrow>
          let key = \<lparr>dev = Dev st, ino = Ino st\<rparr> in
          (case map_of (recvedFDs w) key of
             Some old \<Rightarrow> Inr (w, syscall_Close d s)
           | None \<Rightarrow>
               let w1 = w\<lparr>recvedFDs := AList.update key d (recvedFDs w)\<rparr> in
               (case resolve_waiters k d (waiters w1 key) s of
                  Inl f \<Rightarrow> Inl f
                | Inr s1 \<Rightarrow> Inr (w1\<lparr>recvFDChans := AList.delete key (recvFDChans w1)\<rparr>, s1))))"

fun arrivals :: "os \<Rightarrow> fd list \<Rightarrow> connWrap \<times> world \<Rightarrow> fault + connWrap \<times> world" where
  "arrivals k [] ws = Inr ws"
| "arrivals k (d # ds) ws =
     (case arrival k d ws of Inl f \<Rightarrow> Inl f | Inr ws1 \<Rightarrow> arrivals k ds ws1)"

text \<open>
  The control messages of one read, after \<^verbatim>\<open>syscall.ParseSocketControlMessage\<close>: for each
  message what \<^verbatim>\<open>syscall.ParseUnixRights\<close> makes of it, \<open>None\<close> when it fails. A message
  that fails ends the task; what the earlier messages did stays.
\<close>

fun messages :: "os \<Rightarrow> fd list option list \<Rightarrow> connWrap \<times> world \<Rightarrow> fault + connWrap \<times> world" where
  "messages k [] ws = Inr ws"
| "messages k (None # ms) ws = Inr ws"
| "messages k (Some ds # ms) ws =
     (case arrivals k ds ws of Inl f \<Rightarrow> Inl f | Inr ws1 \<Rightarrow> messages k ms ws1)"

text \<open>
  What \<^verbatim>\<open>ReadMsgUnix\<close> returned: the number of bytes, the ancillary data (\<open>NoOOB\<close> when
  \<open>oobn\<close> is 0, \<open>BadOOB\<close> when the control messages do not parse) and the error.
\<close>

datatype oob = NoOOB | BadOOB | Msgs "fd list option list"

definition Read ::
  "os \<Rightarrow> nat \<Rightarrow> oob \<Rightarrow> error option \<Rightarrow> connWrap \<times> world \<Rightarrow> fault + (nat \<times> error option) \<times> connWrap \<times> world" where
  "Read k n ob err ws =
     (case (case ob of NoOOB \<Rightarrow> Inr ws | BadOOB \<Rightarrow> Inr ws | Msgs ms \<Rightarrow> messages k ms ws) of
        Inl f \<Rightarrow> Inl f
      | Inr ws1 \<Rightarrow> Inr ((if err \<noteq> None then (0, err) else (n, err)), ws1))"

subsection \<open>close\<close>

fun close_chans :: "chan list \<Rightarrow> 'a channel list \<Rightarrow> fault + 'a channel list" where
  "close_chans [] h = Inr h"
| "close_chans (c # cs) h =
     (case chan_close c h of Inl f \<Rightarrow> Inl f | Inr h1 \<Rightarrow> close_chans cs h1)"

text \<open>The task \<open>close\<close> gives the receive executor: the cache, then the waiters.\<close>

fun close_waiters :: "(inodeKey \<times> chan list) list \<Rightarrow> fd channel list \<Rightarrow> fault + fd channel list" where
  "close_waiters [] h = Inr h"
| "close_waiters ((key, recvChs) # rest) h =
     (case close_chans recvChs h of Inl f \<Rightarrow> Inl f | Inr h1 \<Rightarrow> close_waiters rest h1)"

fun close_recv_task :: "connWrap \<times> world \<Rightarrow> fault + connWrap \<times> world" where
  "close_recv_task (w, s) =
     (let s1 = fold syscall_Close (map snd (recvedFDs w)) s in
      case close_waiters (recvFDChans w) (fdChans s1) of
        Inl f \<Rightarrow> Inl f
      | Inr h \<Rightarrow> Inr (w\<lparr>recvedFDs := [], recvFDChans := []\<rparr>, s1\<lparr>fdChans := h\<rparr>))"

text \<open>The task it then gives the send executor: every entry still in the queue.\<close>

fun close_sends :: "chan list \<Rightarrow> nat \<Rightarrow> fd list \<Rightarrow> world \<Rightarrow> fault + world" where
  "close_sends chs i [] s = Inr s"
| "close_sends chs i (d # ds) s =
     (if length chs \<le> i then Inl IndexOutOfRange
      else
        (case chan_send (chs ! i) (ConnectionClosed d) (errChans s) of
           Inl f \<Rightarrow> Inl f
         | Inr h1 \<Rightarrow>
             (case chan_close (chs ! i) h1 of
                Inl f \<Rightarrow> Inl f
              | Inr h2 \<Rightarrow> close_sends chs (i + 1) ds (syscall_Close d (s\<lparr>errChans := h2\<rparr>)))))"

fun close_send_task :: "connWrap \<times> world \<Rightarrow> fault + connWrap \<times> world" where
  "close_send_task (w, s) =
     (case close_sends (errChs w) 0 (sendFDs w) s of
        Inl f \<Rightarrow> Inl f
      | Inr s1 \<Rightarrow> Inr (w\<lparr>sendFDs := [], errChs := []\<rparr>, s1))"

text \<open>
  \<open>close\<close> closes the wrapped connection and returns its error; the two tasks run after
  it, the send task after the receive task.
\<close>

fun close :: "os \<Rightarrow> connWrap \<times> world \<Rightarrow> fault + error option \<times> connWrap \<times> world" where
  "close k (w, s) =
     (let err = ConnClose k (connCloses s);
          s1 = s\<lparr>connCloses := connCloses s + 1\<rparr>
      in case close_recv_task (w, s1) of
           Inl f \<Rightarrow> Inl f
         | Inr ws1 \<Rightarrow>
             (case close_send_task ws1 of
                Inl f \<Rightarrow> Inl f
              | Inr ws2 \<Rightarrow> Inr (err, ws2)))"

subsection \<open>The states the wrapper reaches\<close>

text \<open>
  The queue pairs every descriptor with a channel of its own that nothing was sent on yet;
  every waiter channel is registered once and nothing was sent on it yet; the two maps
  have each key once.
\<close>

fun send_ok :: "connWrap \<times> world \<Rightarrow> bool" where
  "send_ok (w, s) =
     (length (sendFDs w) = length (errChs w) \<and> distinct (errChs w) \<and>
        list_all (unused (errChans s)) (errChs w))"

fun recv_ok :: "connWrap \<times> world \<Rightarrow> bool" where
  "recv_ok (w, s) =
     (distinct (map fst (recvedFDs w)) \<and> distinct (map fst (recvFDChans w)) \<and>
        distinct (concat (map snd (recvFDChans w))) \<and>
        list_all (unused (fdChans s)) (concat (map snd (recvFDChans w))))"

subsection \<open>Runs of the connection wrapper\<close>

text \<open>
  The states a wrapper reaches from the one \<open>wrapConn\<close> builds: each step is one call
  that returns, or one of the two tasks of \<open>close\<close>, with any arguments and on any
  kernel. The serialized executors of the source run the tasks one at a time, so a run is a
  sequence of such steps.
\<close>

inductive reachable :: "connWrap \<times> world \<Rightarrow> bool" where
  reach_new: "reachable (wrapConn, new_world)"
| reach_SendFD: "reachable ws \<Longrightarrow> SendFD k d ws = Inr (c, ws') \<Longrightarrow> reachable ws'"
| reach_Write: "reachable ws \<Longrightarrow> Write k b ws = Inr (r, ws') \<Longrightarrow> reachable ws'"
| reach_RecvFD: "reachable ws \<Longrightarrow> RecvFD k dv iv ws = Inr (c, ws') \<Longrightarrow> reachable ws'"
| reach_RecvFile: "reachable ws \<Longrightarrow> RecvFile k dv iv ws = Inr (c, ws') \<Longrightarrow> reachable ws'"
| reach_Read: "reachable ws \<Longrightarrow> Read k n ob err ws = Inr (r, ws') \<Longrightarrow> reachable ws'"
| reach_close_recv: "reachable ws \<Longrightarrow> close_recv_task ws = Inr ws' \<Longrightarrow> reachable ws'"
| reach_close_send: "reachable ws \<Longrightarrow> close_send_task ws = Inr ws' \<Longrightarrow> reachable ws'"

section \<open>Per-call credential adapter (per\_rpc\_transport\_credentials.go)\<close>

text \<open>
  A deferred operation is a Go closure over a transceiver; each closure of the source
  starts one goroutine that calls a method of the transceiver and forwards the channel it
  returns into the channel \<open>out\<close> the caller already holds. The closures are kept as data:
  the method, its arguments and \<open>out\<close>.
\<close>

datatype deferred =
    JoinSendFD fd chan
  | JoinRecvFD uint64 uint64 chan
  | JoinRecvFile uint64 uint64 chan

text \<open>
  The adapter's fields (the wrapped credentials apart), over any type of transceivers,
  and what it acts on: the channels it has made, and the goroutines it has started, each
  the transceiver called and the operation.
\<close>

record 't wrapPerRPCCredentials =
  FDTransceiver :: "'t option"
  transceiverFuncs :: "deferred list"

record 't calls =
  made :: nat
  started :: "('t \<times> deferred) list"

definition invoke :: "'t \<Rightarrow> 't calls \<Rightarrow> deferred \<Rightarrow> 't calls" where
  "invoke tr s f = s\<lparr>started := started s @ [(tr, f)]\<rparr>"

definition make_out :: "'t calls \<Rightarrow> chan \<times> 't calls" where
  "make_out s = (made s, s\<lparr>made := made s + 1\<rparr>)"



fun defer_or_invoke ::
  "deferred \<Rightarrow> 't wrapPerRPCCredentials \<times> 't calls \<Rightarrow> 't wrapPerRPCCredentials \<times> 't calls" where
  "defer_or_invoke f (w, s) =
     (case FDTransceiver w of
        Some tr \<Rightarrow> (w, invoke tr s f)
      | None \<Rightarrow> (w\<lparr>transceiverFuncs := transceiverFuncs w @ [f]\<rparr>, s))"


fun perRPC_RecvFD ::
  "uint64 \<Rightarrow> uint64 \<Rightarrow> 't wrapPerRPCCredentials \<times> 't calls \<Rightarrow> chan \<times> 't wrapPerRPCCredentials \<times> 't calls" where
  "perRPC_RecvFD dv iv (w, s) =
     (case make_out s of (out, s1) \<Rightarrow> (out, defer_or_invoke (JoinRecvFD dv iv out) (w, s1)))"

fun perRPC_RecvFile ::
  "uint64 \<Rightarrow> uint64 \<Rightarrow> 't wrapPerRPCCredentials \<times> 't calls \<Rightarrow> chan \<times> 't wrapPerRPCCredentials \<times> 't calls" where
  "perRPC_RecvFile dv iv (w, s) =
     (case make_out s of (out, s1) \<Rightarrow> (out, defer_or_invoke (JoinRecvFile dv iv out) (w, s1)))"

text \<open>The URL form decodes first, and makes no channel when decoding fails.\<close>

definition perRPC_RecvFDByURL ::
  "(string \<Rightarrow> error + URL) \<Rightarrow> string \<Rightarrow> 't wrapPerRPCCredentials \<times> 't calls \<Rightarrow>
   (error + chan) \<times> 't wrapPerRPCCredentials \<times> 't calls" where
  "perRPC_RecvFDByURL url_Parse urlStr ws =
     (case URLStringToDevIno url_Parse urlStr of
        Inl e \<Rightarrow> (Inl e, ws)
      | Inr (dv, iv) \<Rightarrow> (case perRPC_RecvFD dv iv ws of (out, ws') \<Rightarrow> (Inr out, ws')))"

section \<open>Example states\<close>

text \<open>
  Concrete kernels, parsers and wrapper states, at which the theorems below are
  instantiated.
\<close>

text \<open>
  The value of \<^verbatim>\<open>url.Parse\<close> on the locator \<^verbatim>\<open>not-a-scheme://x/y\<close>.
\<close>

definition parse_x_y :: "string \<Rightarrow> error + URL" where
  "parse_x_y s = Inr \<lparr>Scheme = ''not-a-scheme'', Host = ''x'', Path = ''/y''\<rparr>"

text \<open>A kernel on which every \<open>Fstat\<close> and every duplication fails, and every write succeeds.\<close>

definition no_os :: os where
  "no_os = \<lparr>Fstat = (\<lambda>d. Inl (Errno 9)), F_DUPFD = (\<lambda>n d. (0, 24)),
     WriteMsgUnix = (\<lambda>n b d. None), ConnWrite = (\<lambda>n b. (length b, None)),
     ConnClose = (\<lambda>n. None)\<rparr>"

text \<open>A wrapper with one waiter, on channel 0, for the identity (1, 2).\<close>

definition one_waiter :: "connWrap \<times> world" where
  "one_waiter =
     (\<lparr>sendFDs = [], errChs = [], recvFDChans = [(\<lparr>dev = 1, ino = 2\<rparr>, [0])], recvedFDs = []\<rparr>,
      \<lparr>errChans = [], fdChans = [\<lparr>buf = [], closed = False\<rparr>], fileChans = [], closedFDs = [],
       dups = [], wire = [], connCloses = 0, relays = []\<rparr>)"

text \<open>An adapter with no transceiver yet and one deferred \<open>SendFD\<close>, over transceivers named by numbers.\<close>

definition one_deferred :: "nat wrapPerRPCCredentials \<times> nat calls" where
  "one_deferred =
     (\<lparr>FDTransceiver = None, transceiverFuncs = [JoinSendFD 5 0]\<rparr>, \<lparr>made = 1, started = []\<rparr>)"

text \<open>
  A wrapper with three entries in its queue, the descriptors 7, 8 and 9 with the channels
  0, 1 and 2, nothing sent on any of them.
\<close>

definition three_queued :: "connWrap \<times> world" where
  "three_queued =
     (\<lparr>sendFDs = [7, 8, 9], errChs = [0, 1, 2], recvFDChans = [], recvedFDs = []\<rparr>,
      \<lparr>errChans = [\<lparr>buf = [], closed = False\<rparr>, \<lparr>buf = [], closed = False\<rparr>,
                   \<lparr>buf = [], closed = False\<rparr>],
       fdChans = [], fileChans = [], closedFDs = [], dups = [], wire = [], connCloses = 0,
       relays = []\<rparr>)"

text \<open>
  A kernel on which every descriptor has the identity (1, 2), the first duplication gives
  descriptor 10 and every later one fails with errno 24 (the table of descriptors is full).
\<close>

definition dup_once_os :: os where
  "dup_once_os = \<lparr>Fstat = (\<lambda>d. Inr \<lparr>Dev = 1, Ino = 2\<rparr>),
     F_DUPFD = (\<lambda>n d. if n = 0 then (10, 0) else (0, 24)),
     WriteMsgUnix = (\<lambda>n b d. None), ConnWrite = (\<lambda>n b. (length b, None)),
     ConnClose = (\<lambda>n. None)\<rparr>"

text \<open>A wrapper with two waiters, on the channels 0 and 1, for the identity (1, 2).\<close>

definition two_waiters :: "connWrap \<times> world" where
  "two_waiters =
     (\<lparr>sendFDs = [], errChs = [], recvFDChans = [(\<lparr>dev = 1, ino = 2\<rparr>, [0, 1])], recvedFDs = []\<rparr>,
      \<lparr>errChans = [], fdChans = [\<lparr>buf = [], closed = False\<rparr>, \<lparr>buf = [], closed = False\<rparr>],
       fileChans = [], closedFDs = [], dups = [], wire = [], connCloses = 0, relays = []\<rparr>)"

text \<open>A wrapper that has descriptor 5 cached for the identity (1, 2), and no waiter.\<close>

definition one_cached :: "connWrap \<times> world" where
  "one_cached =
     (\<lparr>sendFDs = [], errChs = [], recvFDChans = [], recvedFDs = [(\<lparr>dev = 1, ino = 2\<rparr>, 5)]\<rparr>,
      \<lparr>errChans = [], fdChans = [], fileChans = [], closedFDs = [], dups = [], wire = [],
       connCloses = 0, relays = []\<rparr>)"

text \<open>
  A wrapper with two entries in its queue (the descriptors 7 and 8, the channels 0 and 1),
  descriptor 5 cached for the identity (1, 2), and a waiter on channel 0 for the identity
  (3, 4).
\<close>

definition busy_wrapper :: "connWrap \<times> world" where
  "busy_wrapper =
     (\<lparr>sendFDs = [7, 8], errChs = [0, 1], recvFDChans = [(\<lparr>dev = 3, ino = 4\<rparr>, [0])],
       recvedFDs = [(\<lparr>dev = 1, ino = 2\<rparr>, 5)]\<rparr>,
      \<lparr>errChans = [\<lparr>buf = [], closed = False\<rparr>, \<lparr>buf = [], closed = False\<rparr>],
       fdChans = [\<lparr>buf = [], closed = False\<rparr>], fileChans = [], closedFDs = [], dups = [],
       wire = [], connCloses = 0, relays = []\<rparr>)"


declare FormatUint.simps [simp del]
declare SendFD.simps [simp del]
declare Write.simps [simp del]
declare RecvFD.simps [simp del]
declare RecvFile.simps [simp del]
declare arrival.simps [simp del]
declare close_recv_task.simps [simp del]
declare close_send_task.simps [simp del]
declare close.simps [simp del]
declare defer_or_invoke.simps [simp del]
declare perRPC_RecvFD.simps [simp del]
declare perRPC_RecvFile.simps [simp del]

section \<open>The identity codec round-trips\<close>

lemma parse_digits_append:
  "parse_digits s0 n (xs @ ys) =
     (case parse_digits s0 n xs of Inl e \<Rightarrow> Inl e | Inr m \<Rightarrow> parse_digits s0 m ys)"
  by (induction xs arbitrary: n) (auto simp: Let_def)

lemma of_char_digit_char: "d < 10 \<Longrightarrow> (of_char (digit_char d) :: nat) = 48 + d"
proof -
  assume "d < 10"
  then have "d = 0 \<or> d = 1 \<or> d = 2 \<or> d = 3 \<or> d = 4 \<or> d = 5 \<or> d = 6 \<or> d = 7 \<or> d = 8 \<or> d = 9"
    by arith
  then show ?thesis
    by (elim disjE) (simp_all add: digit_char_def)
qed

lemma is_digit_digit_char: "d < 10 \<Longrightarrow> is_digit (digit_char d)"
  by (simp add: is_digit_def of_char_digit_char)

lemma parse_digits_FormatUint:
  "n \<le> maxUint64 \<Longrightarrow> parse_digits s0 0 (FormatUint n) = Inr n"
proof (induction n rule: FormatUint.induct)
  case (1 n)
  show ?case
  proof (cases "n < 10")
    case True
    then show ?thesis using 1(2)
      by (subst FormatUint.simps) (simp add: is_digit_digit_char of_char_digit_char cutoff_def maxUint64_def)
  next
    case False
    have le: "n div 10 \<le> maxUint64" using 1(2) by simp
    have c: "n div 10 < cutoff" using 1(2) by (simp add: cutoff_def maxUint64_def)
    have ih: "parse_digits s0 0 (FormatUint (n div 10)) = Inr (n div 10)"
      using 1(1) False le by simp
    show ?thesis using False c 1(2)
      by (subst FormatUint.simps)
         (simp add: parse_digits_append ih is_digit_digit_char of_char_digit_char)
  qed
qed

lemma FormatUint_nonempty: "FormatUint n \<noteq> []"
  by (subst FormatUint.simps) simp

lemma FormatUint_digits: "list_all is_digit (FormatUint n)"
proof (induction n rule: FormatUint.induct)
  case (1 n)
  show ?case
    using 1 by (subst FormatUint.simps) (simp add: is_digit_digit_char)
qed

lemma hd_FormatUint: "is_digit (hd (FormatUint n))"
  using FormatUint_digits [of n] FormatUint_nonempty [of n]
  by (cases "FormatUint n") simp_all

lemma ParseUint_Sprintf_d: "ParseUint (Sprintf_d v) = Inr v"
proof -
  have "unat v \<le> maxUint64"
    using unsigned_less [of v, where ?'a = nat] by (simp add: maxUint64_def)
  then show ?thesis
    by (simp add: ParseUint_def Sprintf_d_def FormatUint_nonempty parse_digits_FormatUint)
qed

lemma slash_not_digit: "\<not> is_digit CHR ''/''"
  by (simp add: is_digit_def)

lemma TrimPrefix_Sprintf_d: "TrimPrefix (Sprintf_d v) ''/'' = Sprintf_d v"
proof -
  obtain c cs where e: "FormatUint (unat v) = c # cs"
    using FormatUint_nonempty [of "unat v"] by (cases "FormatUint (unat v)") auto
  have "is_digit c" using hd_FormatUint [of "unat v"] e by simp
  then have "c \<noteq> CHR ''/''" using slash_not_digit by auto
  then show ?thesis by (simp add: TrimPrefix_def Sprintf_d_def e)
qed

lemma TrimPrefix_slash: "TrimPrefix (''/'' @ s) ''/'' = s"
  by (simp add: TrimPrefix_def)

text \<open>
  C6. For every identity (device, inode), both arbitrary 64-bit values: \<open>FDToURL\<close> on a
  descriptor of that identity gives the URL that is written
  \<^verbatim>\<open>inode://{device}/{inode}\<close>, both fields in decimal digits, and \<open>URLToDevIno\<close> gives
  the identity back from it, with the path as \<open>FDToURL\<close> sets it and with the leading
  slash the path has once the string was parsed.
\<close>

theorem C6_encode_decode:
  assumes "fstat d = Inr st"
  shows "\<exists>u. FDToURL fstat d = Inr u \<and>
           URL_String u = ''inode://'' @ Sprintf_d (Dev st) @ ''/'' @ Sprintf_d (Ino st) \<and>
           list_all is_digit (Sprintf_d (Dev st)) \<and> list_all is_digit (Sprintf_d (Ino st)) \<and>
           URLToDevIno u = Inr (Dev st, Ino st) \<and>
           URLToDevIno (u\<lparr>Path := ''/'' @ Path u\<rparr>) = Inr (Dev st, Ino st)"
proof -
  let ?u = "\<lparr>Scheme = ''inode'', Host = Sprintf_d (Dev st), Path = Sprintf_d (Ino st)\<rparr>"
  have enc: "FDToURL fstat d = Inr ?u"
    using assms by (simp add: FDToURL_def)
  obtain c cs where e: "Sprintf_d (Ino st) = c # cs"
    using FormatUint_nonempty [of "unat (Ino st)"]
    by (cases "Sprintf_d (Ino st)") (auto simp: Sprintf_d_def)
  have "is_digit c" using hd_FormatUint [of "unat (Ino st)"] e by (simp add: Sprintf_d_def)
  then have ns: "c \<noteq> CHR ''/''" using slash_not_digit by auto
  have str: "URL_String ?u = ''inode://'' @ Sprintf_d (Dev st) @ ''/'' @ Sprintf_d (Ino st)"
    using ns by (simp add: URL_String_def e)
  have dec: "URLToDevIno ?u = Inr (Dev st, Ino st)"
    by (simp add: URLToDevIno_def ParseUint_Sprintf_d TrimPrefix_Sprintf_d)
  have dec2: "URLToDevIno (?u\<lparr>Path := ''/'' @ Path ?u\<rparr>) = Inr (Dev st, Ino st)"
    by (simp add: URLToDevIno_def ParseUint_Sprintf_d TrimPrefix_def)
  show ?thesis
    using enc str dec dec2 by (simp add: Sprintf_d_def FormatUint_digits)
qed

text \<open>C6 at device 2049 and the largest inode number.\<close>

theorem C6_encode_decode_witness:
  "FDToURL (\<lambda>_. Inr \<lparr>Dev = 2049, Ino = 18446744073709551615\<rparr>) 3 =
     Inr \<lparr>Scheme = ''inode'', Host = ''2049'', Path = ''18446744073709551615''\<rparr> \<and>
   URL_String \<lparr>Scheme = ''inode'', Host = ''2049'', Path = ''18446744073709551615''\<rparr> =
     ''inode://2049/18446744073709551615'' \<and>
   URLToDevIno \<lparr>Scheme = ''inode'', Host = ''2049'', Path = ''18446744073709551615''\<rparr> =
     Inr (2049, 18446744073709551615) \<and>
   URLToDevIno \<lparr>Scheme = ''inode'', Host = ''2049'', Path = ''/18446744073709551615''\<rparr> =
     Inr (2049, 18446744073709551615)"
  using C6_encode_decode [of "\<lambda>_. Inr \<lparr>Dev = 2049, Ino = 18446744073709551615\<rparr>" 3
      "\<lparr>Dev = 2049, Ino = 18446744073709551615\<rparr>"]
  by (simp add: FDToURL_def Sprintf_d_def FormatUint.simps digit_char_def)

section \<open>Malformed locators\<close>

lemma decimal_value_ge: "n \<le> decimal_value n cs"
  unfolding decimal_value_def
proof (induction cs arbitrary: n)
  case Nil
  show ?case by simp
next
  case (Cons c cs)
  have "n \<le> n * 10 + (of_char c - 48)" by simp
  also have "\<dots> \<le> foldl (\<lambda>a c. a * 10 + (of_char c - 48)) (n * 10 + (of_char c - 48)) cs"
    by (rule Cons.IH)
  finally show ?case by simp
qed

lemma decimal_value_Cons:
  "decimal_value n (c # cs) = decimal_value (n * 10 + (of_char c - 48)) cs"
  by (simp add: decimal_value_def)

lemma parse_digits_Inr_iff:
  "n \<le> maxUint64 \<Longrightarrow>
   (parse_digits s0 n cs = Inr m) =
   (list_all is_digit cs \<and> decimal_value n cs \<le> maxUint64 \<and> m = decimal_value n cs)"
proof (induction cs arbitrary: n)
  case Nil
  then show ?case by (auto simp: decimal_value_def)
next
  case (Cons c cs)
  let ?n1 = "n * 10 + (of_char c - 48)"
  have ge: "?n1 \<le> decimal_value ?n1 cs" by (rule decimal_value_ge)
  show ?case
  proof (cases "is_digit c")
    case False
    then show ?thesis by simp
  next
    case True
    show ?thesis
    proof (cases "cutoff \<le> n")
      case c: True
      then have "maxUint64 < ?n1" by (simp add: cutoff_def maxUint64_def)
      then have "maxUint64 < decimal_value ?n1 cs" using ge by linarith
      then show ?thesis using True c by (simp add: decimal_value_Cons)
    next
      case c: False
      show ?thesis
      proof (cases "maxUint64 < ?n1")
        case True
        then have "maxUint64 < decimal_value ?n1 cs" using ge by linarith
        then show ?thesis using \<open>is_digit c\<close> c True by (simp add: decimal_value_Cons Let_def)
      next
        case False
        then have "?n1 \<le> maxUint64" by simp
        from Cons.IH [OF this] show ?thesis
          using \<open>is_digit c\<close> c False by (simp add: decimal_value_Cons Let_def)
      qed
    qed
  qed
qed

lemma ParseUint_fails_iff: "(\<exists>e. ParseUint s = Inl e) = (\<not> decimal_uint64 s)"
proof (cases "s = []")
  case True
  then show ?thesis by (simp add: ParseUint_def decimal_uint64_def)
next
  case False
  have "(\<exists>m. parse_digits s 0 s = Inr m) = (list_all is_digit s \<and> decimal_value 0 s \<le> maxUint64)"
    using parse_digits_Inr_iff [of 0 s s] by (auto simp: maxUint64_def)
  then show ?thesis
    using False by (cases "parse_digits s 0 s") (auto simp: ParseUint_def decimal_uint64_def)
qed

lemma URLToDevIno_fails:
  assumes "Scheme u \<noteq> ''inode'' \<or> \<not> decimal_uint64 (Host u) \<or>
           \<not> decimal_uint64 (TrimPrefix (Path u) ''/'')"
  shows "\<exists>e. URLToDevIno u = Inl e"
proof (cases "Scheme u \<noteq> ''inode''")
  case True
  then show ?thesis by (simp add: URLToDevIno_def)
next
  case s: False
  show ?thesis
  proof (cases "ParseUint (Host u)")
    case (Inl e)
    then show ?thesis using s by (simp add: URLToDevIno_def)
  next
    case (Inr dv)
    then have "decimal_uint64 (Host u)" using ParseUint_fails_iff [of "Host u"] by auto
    then have "\<not> decimal_uint64 (TrimPrefix (Path u) ''/'')" using assms s by auto
    then obtain e where "ParseUint (TrimPrefix (Path u) ''/'') = Inl e"
      using ParseUint_fails_iff [of "TrimPrefix (Path u) ''/''"] by auto
    then show ?thesis using s Inr by (simp add: URLToDevIno_def)
  qed
qed

text \<open>
  C7. A locator that \<^verbatim>\<open>url.Parse\<close> rejects, or whose scheme is not \<^verbatim>\<open>inode\<close>, or whose
  device field (the host) or inode field (the path without its leading slash) is not a
  non-negative decimal integer fitting in 64 bits, does not decode: \<open>URLStringToDevIno\<close>
  returns an error, and \<open>RecvFDByURL\<close> and \<open>RecvFileByURL\<close> return that error with no
  channel, leaving the wrapper and everything it acts on as they were (no channel made, no
  waiter registered); so does the adapter's \<open>RecvFDByURL\<close>.
\<close>

theorem C7_malformed_locator:
  assumes "(\<exists>e. url_Parse urlStr = Inl e) \<or>
           (\<exists>u. url_Parse urlStr = Inr u \<and>
                (Scheme u \<noteq> ''inode'' \<or> \<not> decimal_uint64 (Host u) \<or>
                 \<not> decimal_uint64 (TrimPrefix (Path u) ''/'')))"
  shows "\<exists>e. URLStringToDevIno url_Parse urlStr = Inl e \<and>
             RecvFDByURL url_Parse k urlStr ws = Inr (Inl e, ws) \<and>
             RecvFileByURL url_Parse k urlStr ws = Inr (Inl e, ws) \<and>
             perRPC_RecvFDByURL url_Parse urlStr aws = (Inl e, aws)"
proof -
  have "\<exists>e. URLStringToDevIno url_Parse urlStr = Inl e"
    using assms URLToDevIno_fails by (auto simp: URLStringToDevIno_def)
  then obtain e where e: "URLStringToDevIno url_Parse urlStr = Inl e" ..
  then show ?thesis by (simp add: RecvFDByURL_def RecvFileByURL_def perRPC_RecvFDByURL_def)
qed

text \<open>C7 at the locator \<^verbatim>\<open>not-a-scheme://x/y\<close>, on a wrapper that has a waiter.\<close>

theorem C7_malformed_locator_witness:
  "URLStringToDevIno parse_x_y ''not-a-scheme://x/y'' = Inl (SchemeError ''not-a-scheme'') \<and>
   RecvFDByURL parse_x_y no_os ''not-a-scheme://x/y'' one_waiter =
     Inr (Inl (SchemeError ''not-a-scheme''), one_waiter) \<and>
   RecvFileByURL parse_x_y no_os ''not-a-scheme://x/y'' one_waiter =
     Inr (Inl (SchemeError ''not-a-scheme''), one_waiter) \<and>
   perRPC_RecvFDByURL parse_x_y ''not-a-scheme://x/y'' one_deferred =
     (Inl (SchemeError ''not-a-scheme''), one_deferred)"
  using C7_malformed_locator [of parse_x_y "''not-a-scheme://x/y''" no_os one_waiter one_deferred]
  by (simp add: parse_x_y_def URLStringToDevIno_def URLToDevIno_def)

section \<open>Channels that were never used\<close>

lemma chan_send_unused:
  "unused h c \<Longrightarrow> chan_send c v h = Inr (h[c := \<lparr>buf = [v], closed = False\<rparr>])"
  by (simp add: unused_def chan_send_def)

lemma chan_close_unused:
  "unused h c \<Longrightarrow> chan_close c h = Inr (settle (c, []) h)"
  by (simp add: unused_def chan_close_def settle_def)

lemma chan_send_close_unused:
  "unused h c \<Longrightarrow>
   (case chan_send c v h of Inl f \<Rightarrow> Inl f | Inr h1 \<Rightarrow> chan_close c h1) = Inr (settle (c, [v]) h)"
  by (simp add: unused_def chan_send_def chan_close_def settle_def)

lemma unused_settle_other:
  "c \<noteq> fst p \<Longrightarrow> unused (settle p h) c = unused h c"
  by (simp add: unused_def settle_def)

lemma length_fold_settle: "length (fold settle ps h) = length h"
  by (induction ps arbitrary: h) (simp_all add: settle_def)

lemma fold_settle_other:
  "c \<notin> fst ` set ps \<Longrightarrow> fold settle ps h ! c = h ! c"
  by (induction ps arbitrary: h) (auto simp: settle_def)

lemma fold_settle_at:
  "distinct (map fst ps) \<Longrightarrow> (c, vs) \<in> set ps \<Longrightarrow> c < length h \<Longrightarrow>
   fold settle ps h ! c = \<lparr>buf = vs, closed = True\<rparr>"
proof (induction ps arbitrary: h)
  case Nil
  then show ?case by simp
next
  case (Cons p ps)
  show ?case
  proof (cases "p = (c, vs)")
    case True
    then have "c \<notin> fst ` set ps" using Cons.prems(1) by auto
    then have "fold settle ps (settle p h) ! c = settle p h ! c" by (rule fold_settle_other)
    moreover have "settle p h ! c = \<lparr>buf = vs, closed = True\<rparr>"
      using True Cons.prems(3) by (simp add: settle_def)
    ultimately show ?thesis by simp
  next
    case False
    then have "(c, vs) \<in> set ps" using Cons.prems(2) by simp
    moreover have "distinct (map fst ps)" using Cons.prems(1) by simp
    moreover have "c < length (settle p h)" using Cons.prems(3) by (simp add: settle_def)
    ultimately show ?thesis using Cons.IH by simp
  qed
qed

lemma map_nth_upt_take_drop:
  "i + n \<le> length xs \<Longrightarrow> map (\<lambda>j. xs ! (i + j)) [0..<n] = take n (drop i xs)"
  by (rule nth_equalityI) simp_all

lemma fold_settle_indexed:
  assumes "distinct chs" and "list_all (\<lambda>c. c < length h) chs"
  shows "(\<forall>j<length chs.
            fold settle (map (\<lambda>j. (chs ! j, f j)) [0..<length chs]) h ! (chs ! j) =
              \<lparr>buf = f j, closed = True\<rparr>) \<and>
         (\<forall>c. c \<notin> set chs \<longrightarrow>
            fold settle (map (\<lambda>j. (chs ! j, f j)) [0..<length chs]) h ! c = h ! c)"
proof -
  let ?ps = "map (\<lambda>j. (chs ! j, f j)) [0..<length chs]"
  have fst_ps: "map fst ?ps = chs" by (simp add: comp_def map_nth)
  have d: "distinct (map fst ?ps)" unfolding fst_ps by (rule assms(1))
  have a: "fold settle ?ps h ! (chs ! j) = \<lparr>buf = f j, closed = True\<rparr>" if j: "j < length chs" for j
  proof -
    have m: "(chs ! j, f j) \<in> set ?ps" using j by (simp add: image_iff) (rule bexI [of _ j], simp_all)
    have lt: "chs ! j < length h" using assms(2) j by (simp add: list_all_length)
    show ?thesis by (rule fold_settle_at [OF d m lt])
  qed
  have b: "fold settle ?ps h ! c = h ! c" if c: "c \<notin> set chs" for c
  proof -
    have "fst ` set ?ps = set chs" using fst_ps by (metis set_map)
    then have "c \<notin> fst ` set ?ps" using c by simp
    then show ?thesis by (rule fold_settle_other)
  qed
  show ?thesis using a b by blast
qed

lemma unused_lt: "list_all (unused h) chs \<Longrightarrow> list_all (\<lambda>c. c < length h) chs"
  by (simp add: list_all_iff unused_def)

lemma unused_fold_settle_other:
  "c \<notin> fst ` set ps \<Longrightarrow> unused (fold settle ps h) c = unused h c"
  by (simp add: unused_def length_fold_settle fold_settle_other)

lemma fold_settle_const:
  assumes "distinct cs" and "list_all (\<lambda>c. c < length h) cs"
  shows "(\<forall>c\<in>set cs. fold settle (map (\<lambda>c. (c, vs)) cs) h ! c = \<lparr>buf = vs, closed = True\<rparr>) \<and>
         (\<forall>c. c \<notin> set cs \<longrightarrow> fold settle (map (\<lambda>c. (c, vs)) cs) h ! c = h ! c)"
proof -
  let ?ps = "map (\<lambda>c. (c, vs)) cs"
  have fst_ps: "map fst ?ps = cs" by (simp add: comp_def)
  have d: "distinct (map fst ?ps)" unfolding fst_ps by (rule assms(1))
  have a: "fold settle ?ps h ! c = \<lparr>buf = vs, closed = True\<rparr>" if c: "c \<in> set cs" for c
  proof -
    have m: "(c, vs) \<in> set ?ps" using c by auto
    have lt: "c < length h" using assms(2) c by (simp add: list_all_iff)
    show ?thesis by (rule fold_settle_at [OF d m lt])
  qed
  have b: "fold settle ?ps h ! c = h ! c" if c: "c \<notin> set cs" for c
  proof -
    have "fst ` set ?ps = set cs" using fst_ps by (metis set_map)
    then have "c \<notin> fst ` set ?ps" using c by simp
    then show ?thesis by (rule fold_settle_other)
  qed
  show ?thesis using a b by blast
qed

section \<open>Write\<close>

lemma Write_loop_ok:
  "i + length ds \<le> length b \<Longrightarrow> i + length ds \<le> length chs \<Longrightarrow> distinct chs \<Longrightarrow>
   (\<forall>j<length ds. unused (errChans s) (chs ! (i + j))) \<Longrightarrow>
   Write_loop k b chs i ds s =
     Inr (s\<lparr>wire := wire s @ map (\<lambda>j. ([b ! (i + j)], Some (ds ! j))) [0..<length ds],
            errChans := fold settle
              (map (\<lambda>j. (chs ! (i + j),
                 case WriteMsgUnix k (length (wire s) + j) [b ! (i + j)] (ds ! j) of
                   None \<Rightarrow> [] | Some e \<Rightarrow> [e])) [0..<length ds]) (errChans s),
            closedFDs := closedFDs s @ ds\<rparr>)"
proof (induction ds arbitrary: i s)
  case Nil
  show ?case by simp
next
  case (Cons d ds)
  let ?c = "chs ! i"
  let ?vs = "case WriteMsgUnix k (length (wire s)) [b ! i] d of None \<Rightarrow> [] | Some e \<Rightarrow> [e]"
  let ?s2 = "s\<lparr>wire := wire s @ [([b ! i], Some d)], errChans := settle (?c, ?vs) (errChans s),
               closedFDs := closedFDs s @ [d]\<rparr>"
  have ib: "i < length b" and ic: "i < length chs" using Cons.prems by simp_all
  have u: "unused (errChans s) ?c" using Cons.prems(4) by force
  have step: "Write_loop k b chs i (d # ds) s = Write_loop k b chs (Suc i) ds ?s2"
    using ib ic u
    by (cases "WriteMsgUnix k (length (wire s)) [b ! i] d")
       (simp_all add: Let_def chan_send_close_unused chan_close_unused syscall_Close_def
          chan_send_unused unused_def chan_close_def settle_def)
  have others: "\<forall>j<length ds. unused (errChans ?s2) (chs ! (Suc i + j))"
  proof (intro allI impI)
    fix j assume j: "j < length ds"
    have "Suc i + j < length chs" using Cons.prems(2) j by simp
    then have "chs ! (Suc i + j) \<noteq> ?c"
      using Cons.prems(3) ic by (simp add: nth_eq_iff_index_eq)
    moreover have "unused (errChans s) (chs ! (i + Suc j))"
      using Cons.prems(4) [rule_format, of "Suc j"] j by simp
    ultimately show "unused (errChans ?s2) (chs ! (Suc i + j))"
      by (simp add: unused_settle_other)
  qed
  have "Write_loop k b chs (Suc i) ds ?s2 =
     Inr (?s2\<lparr>wire := wire ?s2 @ map (\<lambda>j. ([b ! (Suc i + j)], Some (ds ! j))) [0..<length ds],
            errChans := fold settle
              (map (\<lambda>j. (chs ! (Suc i + j),
                 case WriteMsgUnix k (length (wire ?s2) + j) [b ! (Suc i + j)] (ds ! j) of
                   None \<Rightarrow> [] | Some e \<Rightarrow> [e])) [0..<length ds]) (errChans ?s2),
            closedFDs := closedFDs ?s2 @ ds\<rparr>)"
    using Cons.prems others by (intro Cons.IH) simp_all
  then show ?case
    unfolding step by (simp add: map_upt_Suc del: upt_Suc)
qed

lemma Write_loop_short:
  "i \<le> length b \<Longrightarrow> length b < i + length ds \<Longrightarrow> i + length ds \<le> length chs \<Longrightarrow>
   distinct chs \<Longrightarrow> (\<forall>j<length ds. unused (errChans s) (chs ! (i + j))) \<Longrightarrow>
   Write_loop k b chs i ds s = Inl IndexOutOfRange"
proof (induction ds arbitrary: i s)
  case Nil
  then show ?case by simp
next
  case (Cons d ds)
  show ?case
  proof (cases "length b \<le> i")
    case True
    then show ?thesis by simp
  next
    case False
    let ?c = "chs ! i"
    let ?vs = "case WriteMsgUnix k (length (wire s)) [b ! i] d of None \<Rightarrow> [] | Some e \<Rightarrow> [e]"
    let ?s2 = "s\<lparr>wire := wire s @ [([b ! i], Some d)], errChans := settle (?c, ?vs) (errChans s),
                 closedFDs := closedFDs s @ [d]\<rparr>"
    have ib: "i < length b" using False by simp
    have ic: "i < length chs" using Cons.prems by simp
    have u: "unused (errChans s) ?c" using Cons.prems(5) by force
    have step: "Write_loop k b chs i (d # ds) s = Write_loop k b chs (Suc i) ds ?s2"
      using ib ic u
      by (cases "WriteMsgUnix k (length (wire s)) [b ! i] d")
         (simp_all add: Let_def syscall_Close_def unused_def chan_send_def chan_close_def settle_def)
    have others: "\<forall>j<length ds. unused (errChans ?s2) (chs ! (Suc i + j))"
    proof (intro allI impI)
      fix j assume j: "j < length ds"
      have "Suc i + j < length chs" using Cons.prems(3) j by simp
      then have "chs ! (Suc i + j) \<noteq> ?c"
        using Cons.prems(4) ic by (simp add: nth_eq_iff_index_eq)
      moreover have "unused (errChans s) (chs ! (i + Suc j))"
        using Cons.prems(5) [rule_format, of "Suc j"] j by simp
      ultimately show "unused (errChans ?s2) (chs ! (Suc i + j))"
        by (simp add: unused_settle_other)
    qed
    have "Write_loop k b chs (Suc i) ds ?s2 = Inl IndexOutOfRange"
      using Cons.prems ib others by (intro Cons.IH) simp_all
    then show ?thesis unfolding step .
  qed
qed

lemma Write_limit_min: "Write_limit w = min (length (sendFDs w)) maxFDCount"
  by (simp add: Write_limit_def maxFDCount_def)

lemma send_ok_take:
  assumes "send_ok (w, s)" and "n \<le> length (sendFDs w)"
  shows "length (take n (sendFDs w)) = n" and "length (take n (errChs w)) = n"
    and "distinct (take n (errChs w))"
    and "\<forall>j<n. unused (errChans s) (take n (errChs w) ! (0 + j))"
  using assms by (auto simp: list_all_length)

lemma Write_drains:
  assumes ok: "send_ok (w, s)" and len: "Write_limit w \<le> length b"
  shows "Write k b (w, s) =
     Inr ((if snd (ConnWrite k (length (wire s) + Write_limit w) (drop (Write_limit w) b)) = None
           then fst (ConnWrite k (length (wire s) + Write_limit w) (drop (Write_limit w) b)) + Write_limit w
           else fst (ConnWrite k (length (wire s) + Write_limit w) (drop (Write_limit w) b)),
           snd (ConnWrite k (length (wire s) + Write_limit w) (drop (Write_limit w) b))),
          w\<lparr>sendFDs := drop (Write_limit w) (sendFDs w), errChs := drop (Write_limit w) (errChs w)\<rparr>,
          s\<lparr>wire := wire s @ map (\<lambda>j. ([b ! j], Some (sendFDs w ! j))) [0..<Write_limit w] @
                       [(drop (Write_limit w) b, None)],
            errChans := fold settle
              (map (\<lambda>j. (errChs w ! j,
                 case WriteMsgUnix k (length (wire s) + j) [b ! j] (sendFDs w ! j) of
                   None \<Rightarrow> [] | Some e \<Rightarrow> [e])) [0..<Write_limit w]) (errChans s),
            closedFDs := closedFDs s @ take (Write_limit w) (sendFDs w)\<rparr>)"
proof -
  let ?n = "Write_limit w"
  let ?ds = "take ?n (sendFDs w)" and ?chs = "take ?n (errChs w)"
  have n: "?n \<le> length (sendFDs w)" by (simp add: Write_limit_min)
  note t = send_ok_take [OF ok n]
  have eq: "length (sendFDs w) = length (errChs w)" using ok by simp
  have loop: "Write_loop k b ?chs 0 ?ds s =
     Inr (s\<lparr>wire := wire s @ map (\<lambda>j. ([b ! (0 + j)], Some (?ds ! j))) [0..<length ?ds],
            errChans := fold settle
              (map (\<lambda>j. (?chs ! (0 + j),
                 case WriteMsgUnix k (length (wire s) + j) [b ! (0 + j)] (?ds ! j) of
                   None \<Rightarrow> [] | Some e \<Rightarrow> [e])) [0..<length ?ds]) (errChans s),
            closedFDs := closedFDs s @ ?ds\<rparr>)"
    using t len by (intro Write_loop_ok) simp_all
  have m1: "map (\<lambda>j. ([b ! (0 + j)], Some (?ds ! j))) [0..<length ?ds] =
            map (\<lambda>j. ([b ! j], Some (sendFDs w ! j))) [0..<?n]"
    using t(1) by simp
  have m2: "map (\<lambda>j. (?chs ! (0 + j),
                 case WriteMsgUnix k (length (wire s) + j) [b ! (0 + j)] (?ds ! j) of
                   None \<Rightarrow> [] | Some e \<Rightarrow> [e])) [0..<length ?ds] =
            map (\<lambda>j. (errChs w ! j,
                 case WriteMsgUnix k (length (wire s) + j) [b ! j] (sendFDs w ! j) of
                   None \<Rightarrow> [] | Some e \<Rightarrow> [e])) [0..<?n]"
    using t(1) by simp
  show ?thesis
    using n eq len t(1) unfolding Write.simps Let_def loop m1 m2
    by (simp add: split_beta)
qed

lemma Write_short:
  assumes ok: "send_ok (w, s)" and len: "length b < Write_limit w"
  shows "Write k b (w, s) = Inl IndexOutOfRange"
proof -
  let ?n = "Write_limit w"
  let ?ds = "take ?n (sendFDs w)" and ?chs = "take ?n (errChs w)"
  have n: "?n \<le> length (sendFDs w)" by (simp add: Write_limit_min)
  note t = send_ok_take [OF ok n]
  have eq: "length (sendFDs w) = length (errChs w)" using ok by simp
  have loop: "Write_loop k b ?chs 0 ?ds s = Inl IndexOutOfRange"
    using t len by (intro Write_loop_short) simp_all
  show ?thesis
    using n eq unfolding Write.simps Let_def loop by simp
qed

lemma send_ok_three_queued: "send_ok three_queued"
  by (simp add: three_queued_def unused_def)

text \<open>
  C1, as the code has it. On a wrapper whose queue is as \<open>SendFD\<close> builds it, with \<open>k\<close>
  entries, and a buffer of at least \<open>min k 64\<close> bytes: \<open>Write\<close> takes exactly the first
  \<open>min k 64\<close> entries from the queue and leaves the others queued in their order; it
  writes one message for each entry taken, in queue order, the \<open>j\<close>-th carrying the
  descriptor of the \<open>j\<close>-th entry and the single byte \<open>b ! j\<close>, then writes the rest of the
  buffer; it closes every descriptor taken, and closes every channel taken after sending
  on it the error of that entry's message, if there was one. When the write of the rest
  reports no error, the count returned is the count that write reports plus \<open>min k 64\<close>,
  which is the length of the buffer when that write reports the whole rest written.
\<close>

theorem C1_Write_drains_queue:
  assumes "send_ok (w, s)" and "min (length (sendFDs w)) 64 \<le> length b"
  shows "\<exists>r w' s'. Write k b (w, s) = Inr (r, w', s') \<and>
           sendFDs w' = drop (min (length (sendFDs w)) 64) (sendFDs w) \<and>
           errChs w' = drop (min (length (sendFDs w)) 64) (errChs w) \<and>
           wire s' = wire s @
             map (\<lambda>j. ([b ! j], Some (sendFDs w ! j))) [0..<min (length (sendFDs w)) 64] @
             [(drop (min (length (sendFDs w)) 64) b, None)] \<and>
           closedFDs s' = closedFDs s @ take (min (length (sendFDs w)) 64) (sendFDs w) \<and>
           (\<forall>j<min (length (sendFDs w)) 64.
              errChans s' ! (errChs w ! j) =
                \<lparr>buf = (case WriteMsgUnix k (length (wire s) + j) [b ! j] (sendFDs w ! j) of
                          None \<Rightarrow> [] | Some e \<Rightarrow> [e]),
                 closed = True\<rparr>) \<and>
           r = (let cw = ConnWrite k (length (wire s) + min (length (sendFDs w)) 64)
                           (drop (min (length (sendFDs w)) 64) b)
                in (if snd cw = None then fst cw + min (length (sendFDs w)) 64 else fst cw, snd cw)) \<and>
           (snd r = None \<and>
            fst (ConnWrite k (length (wire s) + min (length (sendFDs w)) 64)
                   (drop (min (length (sendFDs w)) 64) b)) = length b - min (length (sendFDs w)) 64
            \<longrightarrow> fst r = length b)"
proof -
  let ?n = "min (length (sendFDs w)) 64"
  have n: "Write_limit w = ?n" by (simp add: Write_limit_min maxFDCount_def)
  have len: "Write_limit w \<le> length b" using assms(2) n by simp
  let ?ps = "map (\<lambda>j. (errChs w ! j,
                 case WriteMsgUnix k (length (wire s) + j) [b ! j] (sendFDs w ! j) of
                   None \<Rightarrow> [] | Some e \<Rightarrow> [e])) [0..<?n]"
  have eq: "length (sendFDs w) = length (errChs w)" and d: "distinct (errChs w)"
    and u: "list_all (unused (errChans s)) (errChs w)"
    using assms(1) by simp_all
  have fst_ps: "map fst ?ps = take ?n (errChs w)"
    using eq map_nth_upt_take_drop [of 0 ?n "errChs w"] by (simp add: comp_def)
  have dps: "distinct (map fst ?ps)" unfolding fst_ps using d by simp
  have at: "\<forall>j<?n. fold settle ?ps (errChans s) ! (errChs w ! j) =
                \<lparr>buf = (case WriteMsgUnix k (length (wire s) + j) [b ! j] (sendFDs w ! j) of
                          None \<Rightarrow> [] | Some e \<Rightarrow> [e]),
                 closed = True\<rparr>"
  proof (intro allI impI)
    fix j assume j: "j < ?n"
    then have "j < length (errChs w)" using eq by simp
    then have lt: "errChs w ! j < length (errChans s)"
      using u by (simp add: list_all_length unused_def)
    have "(errChs w ! j,
           case WriteMsgUnix k (length (wire s) + j) [b ! j] (sendFDs w ! j) of
             None \<Rightarrow> [] | Some e \<Rightarrow> [e]) \<in> set ?ps"
      using j by (simp add: image_iff) (rule bexI [of _ j], simp_all)
    from fold_settle_at [OF dps this lt]
    show "fold settle ?ps (errChans s) ! (errChs w ! j) =
                \<lparr>buf = (case WriteMsgUnix k (length (wire s) + j) [b ! j] (sendFDs w ! j) of
                          None \<Rightarrow> [] | Some e \<Rightarrow> [e]),
                 closed = True\<rparr>" .
  qed
  show ?thesis
    using Write_drains [OF assms(1) len, of k] at assms(2) unfolding n
    by (simp add: Let_def)
qed

text \<open>C1 on a queue of three entries and a buffer of four bytes.\<close>

theorem C1_Write_drains_queue_witness:
  "\<exists>w' s'. Write no_os [1, 2, 3, 4] three_queued = Inr ((4, None), w', s') \<and>
     sendFDs w' = [] \<and> errChs w' = [] \<and>
     wire s' = [([1], Some 7), ([2], Some 8), ([3], Some 9), ([4], None)] \<and>
     closedFDs s' = [7, 8, 9] \<and>
     errChans s' = [\<lparr>buf = [], closed = True\<rparr>, \<lparr>buf = [], closed = True\<rparr>,
                    \<lparr>buf = [], closed = True\<rparr>]"
proof -
  have ok: "send_ok (fst three_queued, snd three_queued)" using send_ok_three_queued by simp
  have len: "min (length (sendFDs (fst three_queued))) 64 \<le> length [1, 2, 3, 4 :: byte]"
    by (simp add: three_queued_def)
  have run: "Write no_os [1, 2, 3, 4] three_queued =
     Inr ((4, None),
       \<lparr>sendFDs = [], errChs = [], recvFDChans = [], recvedFDs = []\<rparr>,
       \<lparr>errChans = [\<lparr>buf = [], closed = True\<rparr>, \<lparr>buf = [], closed = True\<rparr>,
                    \<lparr>buf = [], closed = True\<rparr>],
        fdChans = [], fileChans = [], closedFDs = [7, 8, 9], dups = [],
        wire = [([1], Some 7), ([2], Some 8), ([3], Some 9), ([4], None)], connCloses = 0,
        relays = []\<rparr>)"
    by (simp add: three_queued_def no_os_def Write.simps Write_limit_def maxFDCount_def Let_def
        chan_close_def syscall_Close_def)
  show ?thesis
    using C1_Write_drains_queue [OF ok len, of no_os] unfolding run by simp
qed

text \<open>
  C1 as it is stated fails on a buffer shorter than the number of entries taken: with three
  entries queued and an empty buffer, \<open>Write\<close> panics when it reads \<open>b[0]\<close>, after it has
  taken the three entries from the queue and before it has written any message.
\<close>

theorem C1_Write_short_buffer_counterexample:
  "Write no_os [] three_queued = Inl IndexOutOfRange"
  by (simp add: three_queued_def Write.simps Write_limit_def maxFDCount_def Let_def)

text \<open>
  C10. \<open>Write\<close> reads the buffer at the positions 0 to \<open>min k 64 - 1\<close> with no check of
  its length, \<open>k > 0\<close> being the number of entries in the queue: on a wrapper whose queue
  is as \<open>SendFD\<close> builds it, \<open>Write\<close> panics with an index out of range exactly when
  the buffer has fewer than \<open>min k 64\<close> bytes, and otherwise returns, having written the
  byte at each of those positions with one descriptor and then the rest of the buffer.
\<close>

theorem C10_Write_needs_bytes:
  assumes "send_ok (w, s)" and "0 < length (sendFDs w)"
  shows "(Write k b (w, s) = Inl IndexOutOfRange) = (length b < min (length (sendFDs w)) 64) \<and>
         (min (length (sendFDs w)) 64 \<le> length b \<longrightarrow>
            (\<exists>r w' s'. Write k b (w, s) = Inr (r, w', s') \<and>
               wire s' = wire s @
                 map (\<lambda>j. ([b ! j], Some (sendFDs w ! j))) [0..<min (length (sendFDs w)) 64] @
                 [(drop (min (length (sendFDs w)) 64) b, None)]))"
proof (cases "length b < Write_limit w")
  case True
  then show ?thesis
    using Write_short [OF assms(1) True, of k] by (auto simp: Write_limit_min maxFDCount_def)
next
  case False
  then have "Write_limit w \<le> length b" by simp
  from Write_drains [OF assms(1) this, of k] False show ?thesis
    by (auto simp: Write_limit_min maxFDCount_def)
qed

text \<open>C10 on a queue of three entries, with a buffer of two bytes and with one of four.\<close>

theorem C10_Write_needs_bytes_witness:
  "Write no_os [1, 2] three_queued = Inl IndexOutOfRange \<and>
   (\<exists>r w' s'. Write no_os [1, 2, 3, 4] three_queued = Inr (r, w', s') \<and>
      wire s' = [([1], Some 7), ([2], Some 8), ([3], Some 9), ([4], None)])"
proof -
  have ok: "send_ok (fst three_queued, snd three_queued)" using send_ok_three_queued by simp
  have q: "0 < length (sendFDs (fst three_queued))" by (simp add: three_queued_def)
  have a: "Write no_os [1, 2] three_queued = Inl IndexOutOfRange"
    using C10_Write_needs_bytes [OF ok q, of no_os "[1, 2]"] by (simp add: three_queued_def)
  have b: "\<exists>r w' s'. Write no_os [1, 2, 3, 4] three_queued = Inr (r, w', s') \<and>
      wire s' = [([1], Some 7), ([2], Some 8), ([3], Some 9), ([4], None)]"
    using C10_Write_needs_bytes [OF ok q, of no_os "[1, 2, 3, 4]"]
    by (simp add: three_queued_def upt_rec)
  show ?thesis using a b by simp
qed

section \<open>Read\<close>

lemma fcntl_dupfd_eq:
  "fcntl_dupfd k d s = (F_DUPFD k (length (dups s)) d, s\<lparr>dups := dups s @ [d]\<rparr>)"
  by (simp add: fcntl_dupfd_def)

lemma resolve_waiters_step:
  assumes "unused (fdChans s) c"
  shows "resolve_waiters k cached (c # chs) s =
         resolve_waiters k cached chs
           (s\<lparr>dups := dups s @ [cached],
              fdChans := settle (c, delivered k (length (dups s)) cached) (fdChans s)\<rparr>)"
  using assms
  by (simp add: fcntl_dupfd_eq Let_def delivered_def unused_def chan_send_def chan_close_def
      settle_def)

lemma resolve_waiters_ok:
  "distinct chs \<Longrightarrow> list_all (unused (fdChans s)) chs \<Longrightarrow>
   resolve_waiters k cached chs s =
     Inr (s\<lparr>dups := dups s @ replicate (length chs) cached,
            fdChans := fold settle
              (map (\<lambda>j. (chs ! j, delivered k (length (dups s) + j) cached)) [0..<length chs])
              (fdChans s)\<rparr>)"
proof (induction chs arbitrary: s)
  case Nil
  show ?case by simp
next
  case (Cons c chs)
  let ?s2 = "s\<lparr>dups := dups s @ [cached],
              fdChans := settle (c, delivered k (length (dups s)) cached) (fdChans s)\<rparr>"
  have u: "unused (fdChans s) c" using Cons.prems(2) by simp
  have others: "list_all (unused (fdChans ?s2)) chs"
    unfolding list_all_iff
  proof
    fix x assume x: "x \<in> set chs"
    then have "x \<noteq> c" using Cons.prems(1) by auto
    moreover have "unused (fdChans s) x" using Cons.prems(2) x by (simp add: list_all_iff)
    ultimately show "unused (fdChans ?s2) x" by (simp add: unused_settle_other)
  qed
  have d: "distinct chs" using Cons.prems(1) by simp
  show ?case
    unfolding resolve_waiters_step [OF u] Cons.IH [OF d others]
    by (simp add: map_upt_Suc replicate_append_same del: upt_Suc)
qed

lemma waiters_in:
  "waiters w key = [] \<or> waiters w key \<in> set (map snd (recvFDChans w))"
  by (auto simp: waiters_def split: option.splits dest!: map_of_SomeD intro: image_eqI [where x = "(key, _)"])

lemma recv_ok_waiters:
  assumes "recv_ok (w, s)"
  shows "distinct (waiters w key)" and "list_all (unused (fdChans s)) (waiters w key)"
proof -
  show "distinct (waiters w key)"
    using waiters_in [of w key] assms by (auto simp: distinct_concat_iff)
  show "list_all (unused (fdChans s)) (waiters w key)"
    using waiters_in [of w key] assms by (auto simp: list_all_iff)
qed

lemma arrival_new:
  assumes ok: "recv_ok (w, s)" and st: "Fstat k d = Inr st"
    and new: "map_of (recvedFDs w) \<lparr>dev = Dev st, ino = Ino st\<rparr> = None"
  shows "arrival k d (w, s) =
     Inr (w\<lparr>recvedFDs := AList.update \<lparr>dev = Dev st, ino = Ino st\<rparr> d (recvedFDs w),
            recvFDChans := AList.delete \<lparr>dev = Dev st, ino = Ino st\<rparr> (recvFDChans w)\<rparr>,
          s\<lparr>dups := dups s @ replicate (length (waiters w \<lparr>dev = Dev st, ino = Ino st\<rparr>)) d,
            fdChans := fold settle
              (map (\<lambda>j. (waiters w \<lparr>dev = Dev st, ino = Ino st\<rparr> ! j,
                         delivered k (length (dups s) + j) d))
                 [0..<length (waiters w \<lparr>dev = Dev st, ino = Ino st\<rparr>)])
              (fdChans s)\<rparr>)"
proof -
  let ?key = "\<lparr>dev = Dev st, ino = Ino st\<rparr>"
  have w1: "waiters (w\<lparr>recvedFDs := AList.update ?key d (recvedFDs w)\<rparr>) ?key = waiters w ?key"
    by (simp add: waiters_def)
  note r = resolve_waiters_ok [OF recv_ok_waiters [OF ok, of ?key], of k d]
  show ?thesis
    by (simp add: arrival.simps st Let_def new w1 r)
qed

lemma arrival_cached:
  assumes st: "Fstat k d = Inr st"
    and old: "map_of (recvedFDs w) \<lparr>dev = Dev st, ino = Ino st\<rparr> = Some old"
  shows "arrival k d (w, s) = Inr (w, s\<lparr>closedFDs := closedFDs s @ [d]\<rparr>)"
  by (simp add: arrival.simps st Let_def old syscall_Close_def)

lemma arrival_cache_kept:
  assumes "arrival k d (w, s) = Inr (w', s')" and "distinct (map fst (recvedFDs w))"
  shows "distinct (map fst (recvedFDs w')) \<and>
         (\<forall>key v. map_of (recvedFDs w) key = Some v \<longrightarrow> map_of (recvedFDs w') key = Some v)"
proof (cases "Fstat k d")
  case (Inl e)
  then show ?thesis using assms by (simp add: arrival.simps)
next
  case (Inr st)
  let ?key = "\<lparr>dev = Dev st, ino = Ino st\<rparr>"
  show ?thesis
  proof (cases "map_of (recvedFDs w) ?key")
    case (Some old)
    then show ?thesis using assms Inr by (simp add: arrival.simps Let_def)
  next
    case None
    then have "recvedFDs w' = AList.update ?key d (recvedFDs w)"
      using assms(1) Inr by (auto simp: arrival.simps Let_def split: sum.splits)
    then show ?thesis
      using assms(2) None by (auto simp: update_conv' distinct_update)
  qed
qed

text \<open>
  C2, as the code has it. When a descriptor arrives whose identity \<open>Fstat\<close> gives and
  which is not cached yet, on a wrapper whose waiters are as \<open>RecvFD\<close> registers them:
  the descriptor is cached; then the cached descriptor is duplicated once for every waiter
  registered for the identity, in the order of registration, and each waiter's channel is
  closed, holding the duplicate when its own duplication succeeded and nothing when it
  failed; the list of waiters of the identity is then empty, and no other channel changes.
\<close>

theorem C2_arrival_resolves_waiters:
  assumes "recv_ok (w, s)" and "Fstat k d = Inr st"
    and "map_of (recvedFDs w) \<lparr>dev = Dev st, ino = Ino st\<rparr> = None"
  shows "\<exists>w' s'. arrival k d (w, s) = Inr (w', s') \<and>
           map_of (recvedFDs w') \<lparr>dev = Dev st, ino = Ino st\<rparr> = Some d \<and>
           waiters w' \<lparr>dev = Dev st, ino = Ino st\<rparr> = [] \<and>
           dups s' = dups s @ replicate (length (waiters w \<lparr>dev = Dev st, ino = Ino st\<rparr>)) d \<and>
           (\<forall>j<length (waiters w \<lparr>dev = Dev st, ino = Ino st\<rparr>).
              fdChans s' ! (waiters w \<lparr>dev = Dev st, ino = Ino st\<rparr> ! j) =
                \<lparr>buf = delivered k (length (dups s) + j) d, closed = True\<rparr>) \<and>
           (\<forall>c. c \<notin> set (waiters w \<lparr>dev = Dev st, ino = Ino st\<rparr>) \<longrightarrow>
              fdChans s' ! c = fdChans s ! c)"
proof -
  let ?key = "\<lparr>dev = Dev st, ino = Ino st\<rparr>"
  note wk = recv_ok_waiters [OF assms(1), of ?key]
  note ix = fold_settle_indexed [OF wk(1) unused_lt [OF wk(2)],
      of "\<lambda>j. delivered k (length (dups s) + j) d"]
  show ?thesis
    unfolding arrival_new [OF assms]
    using ix by (simp add: update_conv' waiters_def delete_conv')
qed

text \<open>
  C2 with two waiters, on a kernel whose first duplication succeeds and whose second fails.
\<close>

theorem C2_arrival_resolves_waiters_witness:
  "arrival dup_once_os 5 two_waiters =
     Inr (\<lparr>sendFDs = [], errChs = [], recvFDChans = [], recvedFDs = [(\<lparr>dev = 1, ino = 2\<rparr>, 5)]\<rparr>,
          \<lparr>errChans = [], fdChans = [\<lparr>buf = [10], closed = True\<rparr>, \<lparr>buf = [], closed = True\<rparr>],
           fileChans = [], closedFDs = [], dups = [5, 5], wire = [], connCloses = 0,
           relays = []\<rparr>) \<and>
   delivered dup_once_os 0 5 = [10] \<and> delivered dup_once_os 1 5 = []"
proof -
  have ok: "recv_ok (fst two_waiters, snd two_waiters)"
    by (simp add: two_waiters_def unused_def)
  have st: "Fstat dup_once_os 5 = Inr \<lparr>Dev = 1, Ino = 2\<rparr>" by (simp add: dup_once_os_def)
  have new: "map_of (recvedFDs (fst two_waiters))
               \<lparr>dev = Dev \<lparr>Dev = 1, Ino = 2\<rparr>, ino = Ino \<lparr>Dev = 1, Ino = 2\<rparr>\<rparr> = None"
    by (simp add: two_waiters_def)
  have run: "arrival dup_once_os 5 two_waiters =
     Inr (\<lparr>sendFDs = [], errChs = [], recvFDChans = [], recvedFDs = [(\<lparr>dev = 1, ino = 2\<rparr>, 5)]\<rparr>,
          \<lparr>errChans = [], fdChans = [\<lparr>buf = [10], closed = True\<rparr>, \<lparr>buf = [], closed = True\<rparr>],
           fileChans = [], closedFDs = [], dups = [5, 5], wire = [], connCloses = 0,
           relays = []\<rparr>)"
    by (simp add: two_waiters_def dup_once_os_def arrival.simps Let_def waiters_def
        fcntl_dupfd_def chan_send_def chan_close_def)
  show ?thesis
    using C2_arrival_resolves_waiters [OF ok st new] run
    by (simp add: delivered_def dup_once_os_def)
qed

text \<open>
  C2 as it is stated fails: the outcomes of the waiters of one identity can differ. With two
  waiters and a kernel that has room for one more descriptor only, the first waiter
  receives the duplicate 10 and the second has its channel closed with nothing in it.
\<close>

theorem C2_mixed_outcome_counterexample:
  "arrival dup_once_os 5 two_waiters =
     Inr (\<lparr>sendFDs = [], errChs = [], recvFDChans = [], recvedFDs = [(\<lparr>dev = 1, ino = 2\<rparr>, 5)]\<rparr>,
          \<lparr>errChans = [], fdChans = [\<lparr>buf = [10], closed = True\<rparr>, \<lparr>buf = [], closed = True\<rparr>],
           fileChans = [], closedFDs = [], dups = [5, 5], wire = [], connCloses = 0,
           relays = []\<rparr>)"
  by (simp add: two_waiters_def dup_once_os_def arrival.simps Let_def waiters_def
      fcntl_dupfd_def chan_send_def chan_close_def)

lemma arrivals_cache_kept:
  "arrivals k ds (w, s) = Inr (w', s') \<Longrightarrow> distinct (map fst (recvedFDs w)) \<Longrightarrow>
   distinct (map fst (recvedFDs w')) \<and>
   (\<forall>key v. map_of (recvedFDs w) key = Some v \<longrightarrow> map_of (recvedFDs w') key = Some v)"
proof (induction ds arbitrary: w s)
  case Nil
  then show ?case by simp
next
  case (Cons d ds)
  from Cons.prems(1) obtain w1 s1 where a: "arrival k d (w, s) = Inr (w1, s1)"
    and r: "arrivals k ds (w1, s1) = Inr (w', s')"
    by (auto split: sum.splits)
  from arrival_cache_kept [OF a Cons.prems(2)] Cons.IH [OF r] show ?case by blast
qed

lemma messages_cache_kept:
  "messages k ms (w, s) = Inr (w', s') \<Longrightarrow> distinct (map fst (recvedFDs w)) \<Longrightarrow>
   distinct (map fst (recvedFDs w')) \<and>
   (\<forall>key v. map_of (recvedFDs w) key = Some v \<longrightarrow> map_of (recvedFDs w') key = Some v)"
proof (induction ms arbitrary: w s)
  case Nil
  then show ?case by simp
next
  case (Cons m ms)
  show ?case
  proof (cases m)
    case None
    then show ?thesis using Cons.prems by simp
  next
    case (Some ds)
    with Cons.prems(1) obtain w1 s1 where a: "arrivals k ds (w, s) = Inr (w1, s1)"
      and r: "messages k ms (w1, s1) = Inr (w', s')"
      by (auto split: sum.splits)
    from arrivals_cache_kept [OF a Cons.prems(2)] Cons.IH [OF r] show ?thesis by blast
  qed
qed

lemma Read_cache_kept:
  assumes "Read k n ob err (w, s) = Inr (r, w', s')" and "distinct (map fst (recvedFDs w))"
  shows "distinct (map fst (recvedFDs w')) \<and>
         (\<forall>key v. map_of (recvedFDs w) key = Some v \<longrightarrow> map_of (recvedFDs w') key = Some v)"
proof (cases ob)
  case NoOOB
  then show ?thesis using assms by (auto simp: Read_def)
next
  case BadOOB
  then show ?thesis using assms by (auto simp: Read_def)
next
  case (Msgs ms)
  then have "messages k ms (w, s) = Inr (w', s')"
    using assms(1) by (auto simp: Read_def split: sum.splits)
  from messages_cache_kept [OF this assms(2)] show ?thesis .
qed

section \<open>SendFD and RecvFD\<close>

lemma RecvFD_cached:
  assumes "map_of (recvedFDs w) \<lparr>dev = dv, ino = iv\<rparr> = Some d"
  shows "RecvFD k dv iv (w, s) =
     Inr (length (fdChans s), w,
          s\<lparr>dups := dups s @ [d],
            fdChans := fdChans s @ [\<lparr>buf = delivered k (length (dups s)) d, closed = True\<rparr>]\<rparr>)"
  using assms
  by (simp add: RecvFD.simps Let_def make_chan_def fcntl_dupfd_def delivered_def chan_send_def
      chan_close_def)

lemma RecvFD_new:
  assumes "map_of (recvedFDs w) \<lparr>dev = dv, ino = iv\<rparr> = None"
  shows "RecvFD k dv iv (w, s) =
     Inr (length (fdChans s),
          w\<lparr>recvFDChans := AList.update \<lparr>dev = dv, ino = iv\<rparr>
               (waiters w \<lparr>dev = dv, ino = iv\<rparr> @ [length (fdChans s)]) (recvFDChans w)\<rparr>,
          s\<lparr>fdChans := fdChans s @ [\<lparr>buf = [], closed = False\<rparr>]\<rparr>)"
  using assms by (simp add: RecvFD.simps Let_def make_chan_def)

lemma SendFD_dup_fails:
  assumes "snd (F_DUPFD k (length (dups s)) d) \<noteq> 0"
  shows "SendFD k d (w, s) =
     Inr (length (errChans s), w,
          s\<lparr>dups := dups s @ [d],
            errChans := errChans s @
              [\<lparr>buf = [WithStack (Errno (snd (F_DUPFD k (length (dups s)) d)))], closed = True\<rparr>]\<rparr>)"
  using assms
  by (simp add: SendFD.simps Let_def make_chan_def fcntl_dupfd_def chan_send_def chan_close_def)

lemma SendFD_dup_succeeds:
  assumes "snd (F_DUPFD k (length (dups s)) d) = 0"
  shows "SendFD k d (w, s) =
     Inr (length (errChans s),
          w\<lparr>sendFDs := sendFDs w @ [fst (F_DUPFD k (length (dups s)) d)],
            errChs := errChs w @ [length (errChans s)]\<rparr>,
          s\<lparr>dups := dups s @ [d], errChans := errChans s @ [\<lparr>buf = [], closed = False\<rparr>]\<rparr>)"
  using assms
  by (simp add: SendFD.simps Let_def make_chan_def fcntl_dupfd_def)

lemma unused_append:
  "unused h c \<Longrightarrow> unused (h @ [x]) c"
  by (simp add: unused_def nth_append)

lemma unused_new: "unused (h @ [\<lparr>buf = [], closed = False\<rparr>]) (length h)"
  by (simp add: unused_def)

lemma concat_update_waiter:
  assumes "distinct (concat (map snd xs))" and "c \<notin> set (concat (map snd xs))"
  shows "distinct (concat (map snd
            (AList.update key ((case map_of xs key of None \<Rightarrow> [] | Some v \<Rightarrow> v) @ [c]) xs))) \<and>
         set (concat (map snd
            (AList.update key ((case map_of xs key of None \<Rightarrow> [] | Some v \<Rightarrow> v) @ [c]) xs))) =
         insert c (set (concat (map snd xs)))"
  using assms
proof (induction xs)
  case Nil
  show ?case by simp
next
  case (Cons p xs)
  obtain k' v' where p: "p = (k', v')" by (cases p)
  show ?case
  proof (cases "k' = key")
    case True
    then show ?thesis using Cons.prems p by auto
  next
    case False
    have d: "distinct (concat (map snd xs))" and n: "c \<notin> set (concat (map snd xs))"
      using Cons.prems p by simp_all
    note ih = Cons.IH [OF d n]
    show ?thesis using False p ih Cons.prems by auto
  qed
qed

lemma recv_ok_unused:
  "recv_ok (w, s) \<Longrightarrow> x \<in> set (concat (map snd (recvFDChans w))) \<Longrightarrow> unused (fdChans s) x"
  by (auto simp: list_all_iff)

lemma recv_ok_register:
  assumes ok: "recv_ok (w, s)"
  shows "recv_ok (w\<lparr>recvFDChans := AList.update key (waiters w key @ [length (fdChans s)])
                       (recvFDChans w)\<rparr>,
                  s\<lparr>fdChans := fdChans s @ [\<lparr>buf = [], closed = False\<rparr>]\<rparr>)"
proof -
  let ?c = "length (fdChans s)"
  have fresh: "?c \<notin> set (concat (map snd (recvFDChans w)))"
  proof
    assume "?c \<in> set (concat (map snd (recvFDChans w)))"
    then have "unused (fdChans s) ?c" using ok by (rule recv_ok_unused [rotated])
    then show False by (simp add: unused_def)
  qed
  have d: "distinct (concat (map snd (recvFDChans w)))" using ok by simp
  note c = concat_update_waiter [OF d fresh, of key]
  have all: "list_all (unused (fdChans s @ [\<lparr>buf = [], closed = False\<rparr>]))
               (concat (map snd (AList.update key (waiters w key @ [?c]) (recvFDChans w))))"
    unfolding list_all_iff waiters_def
  proof
    fix x
    assume "x \<in> set (concat (map snd (AList.update key
               ((case map_of (recvFDChans w) key of None \<Rightarrow> [] | Some chs \<Rightarrow> chs) @ [?c])
               (recvFDChans w))))"
    then have "x = ?c \<or> x \<in> set (concat (map snd (recvFDChans w)))" using c by auto
    then show "unused (fdChans s @ [\<lparr>buf = [], closed = False\<rparr>]) x"
    proof
      assume "x = ?c"
      then show ?thesis by (simp add: unused_new)
    next
      assume "x \<in> set (concat (map snd (recvFDChans w)))"
      then have "unused (fdChans s) x" using ok by (rule recv_ok_unused [rotated])
      then show ?thesis by (rule unused_append)
    qed
  qed
  show ?thesis
    using ok c all by (simp add: distinct_update waiters_def)
qed





text \<open>
  C8. A duplication that fails shows on the channel of the operation it was made for.
  \<open>SendFD\<close> makes its channel and duplicates the descriptor itself: when the duplication
  fails, the channel holds the error and is closed and the queue is as before; when it
  succeeds, the duplicate (not the caller's descriptor) joins the queue with the channel.
  \<open>RecvFD\<close> on a cached identity whose duplication fails returns a channel that is closed
  and empty, and so is the channel of a waiter whose duplication fails when its descriptor
  arrives.
\<close>

theorem C8_duplication_failure_on_channel:
  "(snd (F_DUPFD k (length (dups s)) d) \<noteq> 0 \<longrightarrow>
      SendFD k d (w, s) =
        Inr (length (errChans s), w,
             s\<lparr>dups := dups s @ [d],
               errChans := errChans s @
                 [\<lparr>buf = [WithStack (Errno (snd (F_DUPFD k (length (dups s)) d)))],
                   closed = True\<rparr>]\<rparr>)) \<and>
   (map_of (recvedFDs w1) \<lparr>dev = dv, ino = iv\<rparr> = Some c \<and>
    snd (F_DUPFD k1 (length (dups s1)) c) \<noteq> 0 \<longrightarrow>
      RecvFD k1 dv iv (w1, s1) =
        Inr (length (fdChans s1), w1,
             s1\<lparr>dups := dups s1 @ [c], fdChans := fdChans s1 @ [\<lparr>buf = [], closed = True\<rparr>]\<rparr>)) \<and>
   (recv_ok (w2, s2) \<and> Fstat k2 a = Inr st \<and>
    map_of (recvedFDs w2) \<lparr>dev = Dev st, ino = Ino st\<rparr> = None \<and>
    j < length (waiters w2 \<lparr>dev = Dev st, ino = Ino st\<rparr>) \<and>
    snd (F_DUPFD k2 (length (dups s2) + j) a) \<noteq> 0 \<longrightarrow>
      (\<exists>w' s'. arrival k2 a (w2, s2) = Inr (w', s') \<and>
         fdChans s' ! (waiters w2 \<lparr>dev = Dev st, ino = Ino st\<rparr> ! j) = \<lparr>buf = [], closed = True\<rparr>)) \<and>
   (snd (F_DUPFD k0 (length (dups s0)) d0) = 0 \<longrightarrow>
      SendFD k0 d0 (w0, s0) =
        Inr (length (errChans s0),
             w0\<lparr>sendFDs := sendFDs w0 @ [fst (F_DUPFD k0 (length (dups s0)) d0)],
                errChs := errChs w0 @ [length (errChans s0)]\<rparr>,
             s0\<lparr>dups := dups s0 @ [d0],
                errChans := errChans s0 @ [\<lparr>buf = [], closed = False\<rparr>]\<rparr>))"
proof (intro conjI)
  show "snd (F_DUPFD k (length (dups s)) d) \<noteq> 0 \<longrightarrow>
      SendFD k d (w, s) =
        Inr (length (errChans s), w,
             s\<lparr>dups := dups s @ [d],
               errChans := errChans s @
                 [\<lparr>buf = [WithStack (Errno (snd (F_DUPFD k (length (dups s)) d)))],
                   closed = True\<rparr>]\<rparr>)"
    using SendFD_dup_fails by blast
  show "map_of (recvedFDs w1) \<lparr>dev = dv, ino = iv\<rparr> = Some c \<and>
    snd (F_DUPFD k1 (length (dups s1)) c) \<noteq> 0 \<longrightarrow>
      RecvFD k1 dv iv (w1, s1) =
        Inr (length (fdChans s1), w1,
             s1\<lparr>dups := dups s1 @ [c], fdChans := fdChans s1 @ [\<lparr>buf = [], closed = True\<rparr>]\<rparr>)"
    by (simp add: RecvFD_cached delivered_def)
  show "recv_ok (w2, s2) \<and> Fstat k2 a = Inr st \<and>
    map_of (recvedFDs w2) \<lparr>dev = Dev st, ino = Ino st\<rparr> = None \<and>
    j < length (waiters w2 \<lparr>dev = Dev st, ino = Ino st\<rparr>) \<and>
    snd (F_DUPFD k2 (length (dups s2) + j) a) \<noteq> 0 \<longrightarrow>
      (\<exists>w' s'. arrival k2 a (w2, s2) = Inr (w', s') \<and>
         fdChans s' ! (waiters w2 \<lparr>dev = Dev st, ino = Ino st\<rparr> ! j) = \<lparr>buf = [], closed = True\<rparr>)"
  proof (rule impI)
    let ?key = "\<lparr>dev = Dev st, ino = Ino st\<rparr>"
    assume a: "recv_ok (w2, s2) \<and> Fstat k2 a = Inr st \<and> map_of (recvedFDs w2) ?key = None \<and>
               j < length (waiters w2 ?key) \<and> snd (F_DUPFD k2 (length (dups s2) + j) a) \<noteq> 0"
    then have ok: "recv_ok (w2, s2)" and st: "Fstat k2 a = Inr st"
      and new: "map_of (recvedFDs w2) ?key = None" and j: "j < length (waiters w2 ?key)"
      and f: "snd (F_DUPFD k2 (length (dups s2) + j) a) \<noteq> 0"
      by simp_all
    note wk = recv_ok_waiters [OF ok, of ?key]
    note ix = fold_settle_indexed [OF wk(1) unused_lt [OF wk(2)],
      of "\<lambda>j. delivered k2 (length (dups s2) + j) a"]
    show "\<exists>w' s'. arrival k2 a (w2, s2) = Inr (w', s') \<and>
         fdChans s' ! (waiters w2 ?key ! j) = \<lparr>buf = [], closed = True\<rparr>"
      unfolding arrival_new [OF ok st new]
      using ix [THEN conjunct1, rule_format, OF j] f by (simp add: delivered_def)
  qed
  show "snd (F_DUPFD k0 (length (dups s0)) d0) = 0 \<longrightarrow>
      SendFD k0 d0 (w0, s0) =
        Inr (length (errChans s0),
             w0\<lparr>sendFDs := sendFDs w0 @ [fst (F_DUPFD k0 (length (dups s0)) d0)],
                errChs := errChs w0 @ [length (errChans s0)]\<rparr>,
             s0\<lparr>dups := dups s0 @ [d0],
                errChans := errChans s0 @ [\<lparr>buf = [], closed = False\<rparr>]\<rparr>)"
    using SendFD_dup_succeeds by blast
qed

text \<open>
  C8 on a kernel where every duplication fails with errno 24, and, for the waiter, where the
  second one does.
\<close>

theorem C8_duplication_failure_on_channel_witness:
  "SendFD no_os 3 three_queued =
     Inr (3, fst three_queued,
          (snd three_queued)\<lparr>dups := [3],
             errChans := errChans (snd three_queued) @
               [\<lparr>buf = [WithStack (Errno 24)], closed = True\<rparr>]\<rparr>) \<and>
   RecvFD no_os 1 2 one_cached =
     Inr (0, fst one_cached,
          (snd one_cached)\<lparr>dups := [5], fdChans := [\<lparr>buf = [], closed = True\<rparr>]\<rparr>) \<and>
   (\<exists>w' s'. arrival dup_once_os 5 two_waiters = Inr (w', s') \<and>
      fdChans s' ! 1 = \<lparr>buf = [], closed = True\<rparr>) \<and>
   SendFD dup_once_os 3 (wrapConn, new_world) =
     Inr (0, wrapConn\<lparr>sendFDs := [10], errChs := [0]\<rparr>,
          new_world\<lparr>dups := [3], errChans := [\<lparr>buf = [], closed = False\<rparr>]\<rparr>)"
proof -
  have f4: "snd (F_DUPFD dup_once_os (length (dups new_world)) 3) = 0"
    by (simp add: dup_once_os_def new_world_def)
  have f1: "snd (F_DUPFD no_os (length (dups (snd three_queued))) 3) \<noteq> 0"
    by (simp add: no_os_def)
  have c: "map_of (recvedFDs (fst one_cached)) \<lparr>dev = 1, ino = 2\<rparr> = Some 5"
    by (simp add: one_cached_def)
  have f2: "snd (F_DUPFD no_os (length (dups (snd one_cached))) 5) \<noteq> 0"
    by (simp add: no_os_def)
  have ok: "recv_ok (fst two_waiters, snd two_waiters)"
    by (simp add: two_waiters_def unused_def)
  have st: "Fstat dup_once_os 5 = Inr \<lparr>Dev = 1, Ino = 2\<rparr>" by (simp add: dup_once_os_def)
  have new: "map_of (recvedFDs (fst two_waiters)) \<lparr>dev = 1, ino = 2\<rparr> = None"
    by (simp add: two_waiters_def)
  have wt: "waiters (fst two_waiters) \<lparr>dev = 1, ino = 2\<rparr> = [0, 1]"
    by (simp add: two_waiters_def waiters_def)
  have f3: "snd (F_DUPFD dup_once_os (length (dups (snd two_waiters)) + 1) 5) \<noteq> 0"
    by (simp add: dup_once_os_def)
  from C8_duplication_failure_on_channel [of no_os "snd three_queued" 3 "fst three_queued"
      "fst one_cached" 1 2 5 no_os "snd one_cached"
      "fst two_waiters" "snd two_waiters" dup_once_os 5 "\<lparr>Dev = 1, Ino = 2\<rparr>" 1
      dup_once_os new_world 3 wrapConn]
  show ?thesis
    using f1 c f2 ok st new wt f3 f4
    by (simp add: no_os_def three_queued_def one_cached_def)
       (simp add: dup_once_os_def new_world_def wrapConn_def)
qed

section \<open>close\<close>

lemma close_chans_unused:
  "distinct cs \<Longrightarrow> list_all (unused h) cs \<Longrightarrow>
   close_chans cs h = Inr (fold settle (map (\<lambda>c. (c, [])) cs) h)"
proof (induction cs arbitrary: h)
  case Nil
  show ?case by simp
next
  case (Cons c cs)
  have u: "unused h c" using Cons.prems(2) by simp
  have others: "list_all (unused (settle (c, []) h)) cs"
    unfolding list_all_iff
  proof
    fix x assume x: "x \<in> set cs"
    then have "x \<noteq> c" using Cons.prems(1) by auto
    moreover have "unused h x" using Cons.prems(2) x by (simp add: list_all_iff)
    ultimately show "unused (settle (c, []) h) x" by (simp add: unused_settle_other)
  qed
  have d: "distinct cs" using Cons.prems(1) by simp
  show ?case
    using Cons.IH [OF d others] by (simp add: chan_close_unused [OF u])
qed

lemma close_waiters_unused:
  "distinct (concat (map snd xs)) \<Longrightarrow> list_all (unused h) (concat (map snd xs)) \<Longrightarrow>
   close_waiters xs h = Inr (fold settle (map (\<lambda>c. (c, [])) (concat (map snd xs))) h)"
proof (induction xs arbitrary: h)
  case Nil
  show ?case by simp
next
  case (Cons p xs)
  obtain key cs where p: "p = (key, cs)" by (cases p)
  let ?h1 = "fold settle (map (\<lambda>c. (c, [])) cs) h"
  have d1: "distinct cs" and d2: "distinct (concat (map snd xs))"
    and disj: "set cs \<inter> set (concat (map snd xs)) = {}"
    using Cons.prems(1) p by simp_all
  have u1: "list_all (unused h) cs" and u2: "list_all (unused h) (concat (map snd xs))"
    using Cons.prems(2) p by simp_all
  have first: "close_chans cs h = Inr ?h1" by (rule close_chans_unused [OF d1 u1])
  have others: "list_all (unused ?h1) (concat (map snd xs))"
    unfolding list_all_iff
  proof
    fix x assume x: "x \<in> set (concat (map snd xs))"
    then have "x \<notin> set cs" using disj by auto
    then have nin: "x \<notin> fst ` set (map (\<lambda>c. (c, [])) cs)" by (simp add: image_iff)
    have "unused h x" using u2 x by (auto simp: list_all_iff)
    then show "unused ?h1 x" using unused_fold_settle_other [OF nin, of h] by simp
  qed
  show ?case
    using Cons.IH [OF d2 others] p first by simp
qed

lemma fold_syscall_Close: "fold syscall_Close ds s = s\<lparr>closedFDs := closedFDs s @ ds\<rparr>"
  by (induction ds arbitrary: s) (simp_all add: syscall_Close_def)

lemma close_sends_ok:
  "i + length ds \<le> length chs \<Longrightarrow> distinct chs \<Longrightarrow>
   (\<forall>j<length ds. unused (errChans s) (chs ! (i + j))) \<Longrightarrow>
   close_sends chs i ds s =
     Inr (s\<lparr>errChans := fold settle
              (map (\<lambda>j. (chs ! (i + j), [ConnectionClosed (ds ! j)])) [0..<length ds]) (errChans s),
            closedFDs := closedFDs s @ ds\<rparr>)"
proof (induction ds arbitrary: i s)
  case Nil
  show ?case by simp
next
  case (Cons d ds)
  let ?c = "chs ! i"
  let ?s2 = "s\<lparr>errChans := settle (?c, [ConnectionClosed d]) (errChans s),
               closedFDs := closedFDs s @ [d]\<rparr>"
  have ic: "i < length chs" using Cons.prems by simp
  have u: "unused (errChans s) ?c" using Cons.prems(3) by force
  have step: "close_sends chs i (d # ds) s = close_sends chs (Suc i) ds ?s2"
    using ic u
    by (simp add: syscall_Close_def unused_def chan_send_def chan_close_def settle_def)
  have others: "\<forall>j<length ds. unused (errChans ?s2) (chs ! (Suc i + j))"
  proof (intro allI impI)
    fix j assume j: "j < length ds"
    have "Suc i + j < length chs" using Cons.prems(1) j by simp
    then have "chs ! (Suc i + j) \<noteq> ?c"
      using Cons.prems(2) ic by (simp add: nth_eq_iff_index_eq)
    moreover have "unused (errChans s) (chs ! (i + Suc j))"
      using Cons.prems(3) [rule_format, of "Suc j"] j by simp
    ultimately show "unused (errChans ?s2) (chs ! (Suc i + j))"
      by (simp add: unused_settle_other)
  qed
  have "close_sends chs (Suc i) ds ?s2 =
     Inr (?s2\<lparr>errChans := fold settle
              (map (\<lambda>j. (chs ! (Suc i + j), [ConnectionClosed (ds ! j)])) [0..<length ds])
              (errChans ?s2),
            closedFDs := closedFDs ?s2 @ ds\<rparr>)"
    using Cons.prems others by (intro Cons.IH) simp_all
  then show ?case
    unfolding step by (simp add: map_upt_Suc del: upt_Suc)
qed

lemma close_ok:
  assumes sok: "send_ok (w, s)" and rok: "recv_ok (w, s)"
  shows "close k (w, s) =
     Inr (ConnClose k (connCloses s), wrapConn,
          s\<lparr>connCloses := connCloses s + 1,
            closedFDs := closedFDs s @ map snd (recvedFDs w) @ sendFDs w,
            fdChans := fold settle (map (\<lambda>c. (c, [])) (concat (map snd (recvFDChans w))))
                         (fdChans s),
            errChans := fold settle
              (map (\<lambda>j. (errChs w ! j, [ConnectionClosed (sendFDs w ! j)]))
                 [0..<length (sendFDs w)]) (errChans s)\<rparr>)"
proof -
  let ?s1 = "s\<lparr>connCloses := connCloses s + 1\<rparr>"
  let ?h = "fold settle (map (\<lambda>c. (c, [])) (concat (map snd (recvFDChans w)))) (fdChans s)"
  let ?s2 = "?s1\<lparr>closedFDs := closedFDs s @ map snd (recvedFDs w), fdChans := ?h\<rparr>"
  let ?w2 = "w\<lparr>recvedFDs := [], recvFDChans := []\<rparr>"
  have d: "distinct (concat (map snd (recvFDChans w)))"
    and u: "list_all (unused (fdChans s)) (concat (map snd (recvFDChans w)))"
    using rok by simp_all
  have recv: "close_recv_task (w, ?s1) = Inr (?w2, ?s2)"
    using close_waiters_unused [OF d u]
    by (simp add: close_recv_task.simps Let_def fold_syscall_Close)
  have eq: "length (sendFDs w) = length (errChs w)" and ds: "distinct (errChs w)"
    and us: "list_all (unused (errChans s)) (errChs w)"
    using sok by simp_all
  have us': "\<forall>j<length (sendFDs w). unused (errChans ?s2) (errChs w ! (0 + j))"
    using us eq by (simp add: list_all_length)
  have sends: "close_sends (errChs w) 0 (sendFDs w) ?s2 =
     Inr (?s2\<lparr>errChans := fold settle
              (map (\<lambda>j. (errChs w ! (0 + j), [ConnectionClosed (sendFDs w ! j)]))
                 [0..<length (sendFDs w)]) (errChans ?s2),
            closedFDs := closedFDs ?s2 @ sendFDs w\<rparr>)"
    using eq ds us' by (intro close_sends_ok) simp_all
  have send: "close_send_task (?w2, ?s2) =
     Inr (wrapConn,
          ?s2\<lparr>errChans := fold settle
              (map (\<lambda>j. (errChs w ! j, [ConnectionClosed (sendFDs w ! j)]))
                 [0..<length (sendFDs w)]) (errChans s),
            closedFDs := closedFDs ?s2 @ sendFDs w\<rparr>)"
    using sends by (simp add: close_send_task.simps wrapConn_def)
  show ?thesis
    using recv send by (simp add: close.simps Let_def)
qed

lemma close_again:
  "close k (wrapConn, s) = Inr (ConnClose k (connCloses s), wrapConn, s\<lparr>connCloses := connCloses s + 1\<rparr>)"
  by (simp add: close.simps close_recv_task.simps close_send_task.simps wrapConn_def Let_def)

text \<open>
  C3. On a wrapper whose queue and waiters are as \<open>SendFD\<close> and \<open>RecvFD\<close> build them,
  with \<open>N\<close> entries in the queue, \<open>close\<close> returns what closing the wrapped connection
  returns and leaves the wrapper as \<open>wrapConn\<close> builds it. The channel of each of the
  \<open>N\<close> entries holds the single error \<open>ConnectionClosed\<close> for the entry's descriptor and
  is closed, and no other error channel changes; the channel of every waiter is closed with
  nothing in it, and no other descriptor channel changes; the descriptors closed are those
  of the cache and then those of the queue. A second \<open>close\<close> closes the wrapped
  connection once more and changes nothing else.
\<close>

theorem C3_close_fails_everything_pending:
  assumes "send_ok (w, s)" and "recv_ok (w, s)"
  shows "\<exists>s'. close k (w, s) = Inr (ConnClose k (connCloses s), wrapConn, s') \<and>
           (\<forall>j<length (sendFDs w).
              errChans s' ! (errChs w ! j) =
                \<lparr>buf = [ConnectionClosed (sendFDs w ! j)], closed = True\<rparr>) \<and>
           (\<forall>c. c \<notin> set (errChs w) \<longrightarrow> errChans s' ! c = errChans s ! c) \<and>
           (\<forall>c\<in>set (concat (map snd (recvFDChans w))).
              fdChans s' ! c = \<lparr>buf = [], closed = True\<rparr>) \<and>
           (\<forall>c. c \<notin> set (concat (map snd (recvFDChans w))) \<longrightarrow> fdChans s' ! c = fdChans s ! c) \<and>
           closedFDs s' = closedFDs s @ map snd (recvedFDs w) @ sendFDs w \<and>
           connCloses s' = connCloses s + 1 \<and> dups s' = dups s \<and> wire s' = wire s \<and>
           close k (wrapConn, s') =
             Inr (ConnClose k (connCloses s + 1), wrapConn, s'\<lparr>connCloses := connCloses s + 2\<rparr>)"
proof -
  have eq: "length (sendFDs w) = length (errChs w)" and ds: "distinct (errChs w)"
    and us: "list_all (unused (errChans s)) (errChs w)"
    using assms(1) by simp_all
  have d: "distinct (concat (map snd (recvFDChans w)))"
    and u: "list_all (unused (fdChans s)) (concat (map snd (recvFDChans w)))"
    using assms(2) by simp_all
  note e = fold_settle_indexed [OF ds unused_lt [OF us],
      of "\<lambda>j. [ConnectionClosed (sendFDs w ! j)]"]
  note f = fold_settle_const [OF d unused_lt [OF u], of "[]"]
  show ?thesis
    unfolding close_ok [OF assms]
    using e f eq by (simp add: close_again)
qed

text \<open>C3 on a wrapper with two entries queued, one descriptor cached and one waiter.\<close>

theorem C3_close_fails_everything_pending_witness:
  "close no_os busy_wrapper =
     Inr (None, wrapConn,
          \<lparr>errChans = [\<lparr>buf = [ConnectionClosed 7], closed = True\<rparr>,
                       \<lparr>buf = [ConnectionClosed 8], closed = True\<rparr>],
           fdChans = [\<lparr>buf = [], closed = True\<rparr>], fileChans = [], closedFDs = [5, 7, 8],
           dups = [], wire = [], connCloses = 1, relays = []\<rparr>) \<and>
   close no_os (wrapConn,
          \<lparr>errChans = [\<lparr>buf = [ConnectionClosed 7], closed = True\<rparr>,
                       \<lparr>buf = [ConnectionClosed 8], closed = True\<rparr>],
           fdChans = [\<lparr>buf = [], closed = True\<rparr>], fileChans = [], closedFDs = [5, 7, 8],
           dups = [], wire = [], connCloses = 1, relays = []\<rparr>) =
     Inr (None, wrapConn,
          \<lparr>errChans = [\<lparr>buf = [ConnectionClosed 7], closed = True\<rparr>,
                       \<lparr>buf = [ConnectionClosed 8], closed = True\<rparr>],
           fdChans = [\<lparr>buf = [], closed = True\<rparr>], fileChans = [], closedFDs = [5, 7, 8],
           dups = [], wire = [], connCloses = 2, relays = []\<rparr>)"
proof -
  have sok: "send_ok (fst busy_wrapper, snd busy_wrapper)"
    by (simp add: busy_wrapper_def unused_def)
  have rok: "recv_ok (fst busy_wrapper, snd busy_wrapper)"
    by (simp add: busy_wrapper_def unused_def)
  have run: "close no_os busy_wrapper =
     Inr (None, wrapConn,
          \<lparr>errChans = [\<lparr>buf = [ConnectionClosed 7], closed = True\<rparr>,
                       \<lparr>buf = [ConnectionClosed 8], closed = True\<rparr>],
           fdChans = [\<lparr>buf = [], closed = True\<rparr>], fileChans = [], closedFDs = [5, 7, 8],
           dups = [], wire = [], connCloses = 1, relays = []\<rparr>)"
    by (simp add: busy_wrapper_def no_os_def close.simps close_recv_task.simps
        close_send_task.simps Let_def syscall_Close_def chan_send_def chan_close_def wrapConn_def)
  from C3_close_fails_everything_pending [OF sok rok, of no_os]
  show ?thesis
    unfolding prod.collapse run by (simp add: no_os_def busy_wrapper_def)
qed

section \<open>The per-call credential adapter\<close>









section \<open>The states the wrapper reaches\<close>

lemma unused_lt_length: "unused h c \<Longrightarrow> c < length h"
  by (simp add: unused_def)

lemma list_all_unused_append:
  "list_all (unused h) cs \<Longrightarrow> list_all (unused (h @ [x])) cs"
  by (simp add: list_all_iff unused_append)

lemma length_not_unused: "list_all (unused h) cs \<Longrightarrow> length h \<notin> set cs"
  by (auto simp: list_all_iff unused_def)

lemma SendFD_keeps:
  assumes "send_ok (w, s)" and "recv_ok (w, s)"
  shows "\<exists>c w' s'. SendFD k d (w, s) = Inr (c, w', s') \<and> send_ok (w', s') \<and> recv_ok (w', s')"
proof (cases "snd (F_DUPFD k (length (dups s)) d) = 0")
  case True
  show ?thesis
    unfolding SendFD_dup_succeeds [OF True]
    using assms by (simp add: list_all_unused_append length_not_unused unused_new)
next
  case False
  show ?thesis
    unfolding SendFD_dup_fails [OF False]
    using assms by (simp add: list_all_unused_append)
qed

lemma RecvFD_keeps:
  assumes "send_ok (w, s)" and "recv_ok (w, s)"
  shows "\<exists>c w' s'. RecvFD k dv iv (w, s) = Inr (c, w', s') \<and> send_ok (w', s') \<and> recv_ok (w', s')"
proof (cases "map_of (recvedFDs w) \<lparr>dev = dv, ino = iv\<rparr>")
  case None
  show ?thesis
    unfolding RecvFD_new [OF None]
    using assms(1) recv_ok_register [OF assms(2), of "\<lparr>dev = dv, ino = iv\<rparr>"] by simp
next
  case (Some d)
  show ?thesis
    unfolding RecvFD_cached [OF Some]
    using assms by (simp add: list_all_unused_append)
qed

lemma RecvFile_keeps:
  assumes "send_ok (w, s)" and "recv_ok (w, s)"
  shows "\<exists>c w' s'. RecvFile k dv iv (w, s) = Inr (c, w', s') \<and> send_ok (w', s') \<and> recv_ok (w', s')"
proof -
  let ?s0 = "s\<lparr>fileChans := snd (make_chan (fileChans s))\<rparr>"
  have "send_ok (w, ?s0)" and "recv_ok (w, ?s0)" using assms by simp_all
  from RecvFD_keeps [OF this, of k dv iv] obtain c w' s'
    where r: "RecvFD k dv iv (w, ?s0) = Inr (c, w', s')" and ok: "send_ok (w', s')" "recv_ok (w', s')"
    by blast
  show ?thesis
    using r ok by (simp add: RecvFile.simps Let_def)
qed

lemma Write_keeps:
  assumes sok: "send_ok (w, s)" and rok: "recv_ok (w, s)"
    and run: "Write k b (w, s) = Inr (r, w', s')"
  shows "send_ok (w', s') \<and> recv_ok (w', s')"
proof -
  let ?n = "Write_limit w"
  have len: "?n \<le> length b"
  proof (rule ccontr)
    assume "\<not> ?n \<le> length b"
    then have "length b < ?n" by simp
    from Write_short [OF sok this, of k] run show False by simp
  qed
  let ?ps = "map (\<lambda>j. (errChs w ! j,
                 case WriteMsgUnix k (length (wire s) + j) [b ! j] (sendFDs w ! j) of
                   None \<Rightarrow> [] | Some e \<Rightarrow> [e])) [0..<?n]"
  have eq: "length (sendFDs w) = length (errChs w)" and d: "distinct (errChs w)"
    and u: "list_all (unused (errChans s)) (errChs w)"
    using sok by simp_all
  have n: "?n \<le> length (errChs w)" using eq by (simp add: Write_limit_min)
  have fst_ps: "map fst ?ps = take ?n (errChs w)"
    using n map_nth_upt_take_drop [of 0 ?n "errChs w"] by (simp add: comp_def)
  have rest: "list_all (unused (fold settle ?ps (errChans s))) (drop ?n (errChs w))"
    unfolding list_all_iff
  proof
    fix x assume x: "x \<in> set (drop ?n (errChs w))"
    have "set (take ?n (errChs w)) \<inter> set (drop ?n (errChs w)) = {}"
      using d by (metis append_take_drop_id distinct_append)
    then have "x \<notin> set (take ?n (errChs w))" using x by auto
    then have nin: "x \<notin> fst ` set ?ps" using fst_ps by (metis set_map)
    have "unused (errChans s) x" using u x by (auto simp: list_all_iff dest: in_set_dropD)
    then show "unused (fold settle ?ps (errChans s)) x"
      using unused_fold_settle_other [OF nin, of "errChans s"] by simp
  qed
  show ?thesis
    using run rok eq d rest unfolding Write_drains [OF sok len] by auto
qed

lemma set_concat_delete:
  "set (concat (map snd (AList.delete key xs))) \<subseteq> set (concat (map snd xs))"
  by (induction xs) auto

lemma distinct_concat_delete:
  "distinct (concat (map snd xs)) \<Longrightarrow> distinct (concat (map snd (AList.delete key xs)))"
proof (induction xs)
  case Nil
  show ?case by simp
next
  case (Cons p xs)
  have d: "distinct (concat (map snd xs))" using Cons.prems by simp
  have disj: "set (snd p) \<inter> set (concat (map snd xs)) = {}" using Cons.prems by simp
  have "set (snd p) \<inter> set (concat (map snd (AList.delete key xs))) = {}"
    using disj set_concat_delete [of key xs] by blast
  then show ?case using Cons.IH [OF d] Cons.prems by simp
qed

lemma others_not_waiting:
  "distinct (concat (map snd xs)) \<Longrightarrow> map_of xs key = Some cs \<Longrightarrow>
   x \<in> set (concat (map snd (AList.delete key xs))) \<Longrightarrow> x \<notin> set cs"
proof (induction xs)
  case Nil
  then show ?case by simp
next
  case (Cons p xs)
  obtain k' v' where p: "p = (k', v')" by (cases p)
  have disj: "set v' \<inter> set (concat (map snd xs)) = {}" and d: "distinct (concat (map snd xs))"
    using Cons.prems(1) p by simp_all
  show ?case
  proof (cases "k' = key")
    case True
    then have cs: "cs = v'" using Cons.prems(2) p by simp
    have "x \<in> set (concat (map snd (AList.delete key xs)))"
      using Cons.prems(3) p True by simp
    then have "x \<in> set (concat (map snd xs))"
      using set_concat_delete [of key xs] by blast
    then show ?thesis using disj cs by auto
  next
    case False
    then have m: "map_of xs key = Some cs" using Cons.prems(2) p by simp
    then have "(key, cs) \<in> set xs" by (rule map_of_SomeD)
    then have sub: "set cs \<subseteq> set (concat (map snd xs))" by force
    from Cons.prems(3) p False
    have "x \<in> set v' \<or> x \<in> set (concat (map snd (AList.delete key xs)))" by simp
    then show ?thesis
    proof
      assume "x \<in> set v'"
      then show ?thesis using disj sub by auto
    next
      assume "x \<in> set (concat (map snd (AList.delete key xs)))"
      then show ?thesis using Cons.IH [OF d m] by simp
    qed
  qed
qed

lemma arrival_keeps:
  assumes sok: "send_ok (w, s)" and rok: "recv_ok (w, s)"
  shows "\<exists>w' s'. arrival k d (w, s) = Inr (w', s') \<and> send_ok (w', s') \<and> recv_ok (w', s')"
proof (cases "Fstat k d")
  case (Inl e)
  then show ?thesis using assms by (simp add: arrival.simps)
next
  case (Inr st)
  let ?key = "\<lparr>dev = Dev st, ino = Ino st\<rparr>"
  show ?thesis
  proof (cases "map_of (recvedFDs w) ?key")
    case (Some old)
    show ?thesis
      unfolding arrival_cached [OF Inr Some] using assms by simp
  next
    case None
    let ?ps = "map (\<lambda>j. (waiters w ?key ! j, delivered k (length (dups s) + j) d))
                 [0..<length (waiters w ?key)]"
    have fst_ps: "map fst ?ps = waiters w ?key" by (simp add: comp_def map_nth)
    have d: "distinct (concat (map snd (recvFDChans w)))"
      and u: "list_all (unused (fdChans s)) (concat (map snd (recvFDChans w)))"
      using rok by simp_all
    have rest: "list_all (unused (fold settle ?ps (fdChans s)))
                  (concat (map snd (AList.delete ?key (recvFDChans w))))"
      unfolding list_all_iff
    proof
      fix x
      assume x: "x \<in> set (concat (map snd (AList.delete ?key (recvFDChans w))))"
      have "x \<notin> set (waiters w ?key)"
      proof (cases "map_of (recvFDChans w) ?key")
        case None
        then show ?thesis by (simp add: waiters_def)
      next
        case (Some cs)
        from others_not_waiting [OF d Some x] Some show ?thesis by (simp add: waiters_def)
      qed
      then have nin: "x \<notin> fst ` set ?ps" using fst_ps by (metis set_map)
      have "x \<in> set (concat (map snd (recvFDChans w)))"
        using x set_concat_delete [of ?key "recvFDChans w"] by blast
      then have "unused (fdChans s) x" using u by (auto simp: list_all_iff)
      then show "unused (fold settle ?ps (fdChans s)) x"
        using unused_fold_settle_other [OF nin, of "fdChans s"] by simp
    qed
    have dd: "distinct (concat (map snd (AList.delete ?key (recvFDChans w))))"
      by (rule distinct_concat_delete [OF d])
    show ?thesis
      unfolding arrival_new [OF rok Inr None]
      using sok rok rest dd by (simp add: distinct_update distinct_delete)
  qed
qed

lemma arrivals_keeps:
  "send_ok (w, s) \<Longrightarrow> recv_ok (w, s) \<Longrightarrow>
   \<exists>w' s'. arrivals k ds (w, s) = Inr (w', s') \<and> send_ok (w', s') \<and> recv_ok (w', s')"
proof (induction ds arbitrary: w s)
  case Nil
  then show ?case by simp
next
  case (Cons d ds)
  from arrival_keeps [OF Cons.prems, of k d] obtain w1 s1
    where a: "arrival k d (w, s) = Inr (w1, s1)" and ok: "send_ok (w1, s1)" "recv_ok (w1, s1)"
    by blast
  from Cons.IH [OF ok] show ?case using a by simp
qed

lemma messages_keeps:
  "send_ok (w, s) \<Longrightarrow> recv_ok (w, s) \<Longrightarrow>
   \<exists>w' s'. messages k ms (w, s) = Inr (w', s') \<and> send_ok (w', s') \<and> recv_ok (w', s')"
proof (induction ms arbitrary: w s)
  case Nil
  then show ?case by simp
next
  case (Cons m ms)
  show ?case
  proof (cases m)
    case None
    then show ?thesis using Cons.prems by simp
  next
    case (Some ds)
    from arrivals_keeps [OF Cons.prems, of k ds] obtain w1 s1
      where a: "arrivals k ds (w, s) = Inr (w1, s1)" and ok: "send_ok (w1, s1)" "recv_ok (w1, s1)"
      by blast
    from Cons.IH [OF ok] show ?thesis using a Some by simp
  qed
qed

lemma Read_keeps:
  assumes "send_ok (w, s)" and "recv_ok (w, s)"
  shows "\<exists>w' s'. Read k n ob err (w, s) =
           Inr ((if err \<noteq> None then (0, err) else (n, err)), w', s') \<and>
           send_ok (w', s') \<and> recv_ok (w', s')"
proof (cases ob)
  case NoOOB
  then show ?thesis using assms by (simp add: Read_def)
next
  case BadOOB
  then show ?thesis using assms by (simp add: Read_def)
next
  case (Msgs ms)
  from messages_keeps [OF assms, of k ms] obtain w1 s1
    where a: "messages k ms (w, s) = Inr (w1, s1)" and ok: "send_ok (w1, s1)" "recv_ok (w1, s1)"
    by blast
  then show ?thesis using Msgs by (simp add: Read_def)
qed

lemma close_recv_task_keeps:
  assumes "send_ok (w, s)" and "recv_ok (w, s)"
  shows "\<exists>w' s'. close_recv_task (w, s) = Inr (w', s') \<and> send_ok (w', s') \<and> recv_ok (w', s')"
proof -
  have d: "distinct (concat (map snd (recvFDChans w)))"
    and u: "list_all (unused (fdChans s)) (concat (map snd (recvFDChans w)))"
    using assms(2) by simp_all
  show ?thesis
    using close_waiters_unused [OF d u] assms(1)
    by (simp add: close_recv_task.simps Let_def fold_syscall_Close)
qed

lemma close_send_task_keeps:
  assumes "send_ok (w, s)" and "recv_ok (w, s)"
  shows "\<exists>w' s'. close_send_task (w, s) = Inr (w', s') \<and> send_ok (w', s') \<and> recv_ok (w', s')"
proof -
  have eq: "length (sendFDs w) = length (errChs w)" and ds: "distinct (errChs w)"
    and us: "list_all (unused (errChans s)) (errChs w)"
    using assms(1) by simp_all
  have us': "\<forall>j<length (sendFDs w). unused (errChans s) (errChs w ! (0 + j))"
    using us eq by (simp add: list_all_length)
  have "close_sends (errChs w) 0 (sendFDs w) s =
     Inr (s\<lparr>errChans := fold settle
              (map (\<lambda>j. (errChs w ! (0 + j), [ConnectionClosed (sendFDs w ! j)]))
                 [0..<length (sendFDs w)]) (errChans s),
            closedFDs := closedFDs s @ sendFDs w\<rparr>)"
    using eq ds us' by (intro close_sends_ok) simp_all
  then show ?thesis
    using assms(2) by (simp add: close_send_task.simps)
qed

text \<open>
  Every state a wrapper reaches has its queue and its waiters as the theorems above
  require them: the hypotheses \<open>send_ok\<close> and \<open>recv_ok\<close> hold throughout every run. With
  the lemmas above, every call on such a state returns, \<open>Write\<close> on a buffer that is too
  short apart.
\<close>

theorem reachable_ok: "reachable ws \<Longrightarrow> send_ok ws \<and> recv_ok ws"
proof (induction rule: reachable.induct)
  case reach_new
  show ?case by (simp add: wrapConn_def new_world_def)
next
  case (reach_SendFD ws k d c ws')
  obtain w s where ws: "ws = (w, s)" by (cases ws)
  from SendFD_keeps [of w s k d] reach_SendFD ws show ?case by auto
next
  case (reach_Write ws k b r ws')
  obtain w s where ws: "ws = (w, s)" by (cases ws)
  obtain w' s' where ws': "ws' = (w', s')" by (cases ws')
  from Write_keeps [of w s k b r w' s'] reach_Write ws ws' show ?case by auto
next
  case (reach_RecvFD ws k dv iv c ws')
  obtain w s where ws: "ws = (w, s)" by (cases ws)
  from RecvFD_keeps [of w s k dv iv] reach_RecvFD ws show ?case by auto
next
  case (reach_RecvFile ws k dv iv c ws')
  obtain w s where ws: "ws = (w, s)" by (cases ws)
  from RecvFile_keeps [of w s k dv iv] reach_RecvFile ws show ?case by auto
next
  case (reach_Read ws k n ob err r ws')
  obtain w s where ws: "ws = (w, s)" by (cases ws)
  from Read_keeps [of w s k n ob err] reach_Read ws show ?case by auto
next
  case (reach_close_recv ws ws')
  obtain w s where ws: "ws = (w, s)" by (cases ws)
  from close_recv_task_keeps [of w s] reach_close_recv ws show ?case by auto
next
  case (reach_close_send ws ws')
  obtain w s where ws: "ws = (w, s)" by (cases ws)
  from close_send_task_keeps [of w s] reach_close_send ws show ?case by auto
qed

text \<open>
  C5. A descriptor that arrives for an identity already cached is closed, and nothing else
  changes: the cache keeps the descriptor it had. Over a whole \<open>Read\<close> that returns, the
  cache keeps one descriptor for each identity, and every identity cached before the read
  has the same descriptor after it. And in every state a wrapper reaches, the cache has
  each identity once.
\<close>

theorem C5_first_descriptor_wins:
  "(Fstat k d = Inr st \<and> map_of (recvedFDs w) \<lparr>dev = Dev st, ino = Ino st\<rparr> = Some old \<longrightarrow>
      arrival k d (w, s) = Inr (w, s\<lparr>closedFDs := closedFDs s @ [d]\<rparr>)) \<and>
   (distinct (map fst (recvedFDs w)) \<and> Read k n ob err (w, s) = Inr (r, w', s') \<longrightarrow>
      distinct (map fst (recvedFDs w')) \<and>
      (\<forall>key v. map_of (recvedFDs w) key = Some v \<longrightarrow> map_of (recvedFDs w') key = Some v)) \<and>
   (reachable (w0, s0) \<longrightarrow> distinct (map fst (recvedFDs w0)))"
proof (intro conjI)
  show "Fstat k d = Inr st \<and> map_of (recvedFDs w) \<lparr>dev = Dev st, ino = Ino st\<rparr> = Some old \<longrightarrow>
      arrival k d (w, s) = Inr (w, s\<lparr>closedFDs := closedFDs s @ [d]\<rparr>)"
    using arrival_cached by blast
  show "distinct (map fst (recvedFDs w)) \<and> Read k n ob err (w, s) = Inr (r, w', s') \<longrightarrow>
      distinct (map fst (recvedFDs w')) \<and>
      (\<forall>key v. map_of (recvedFDs w) key = Some v \<longrightarrow> map_of (recvedFDs w') key = Some v)"
    using Read_cache_kept by blast
  show "reachable (w0, s0) \<longrightarrow> distinct (map fst (recvedFDs w0))"
    using reachable_ok [of "(w0, s0)"] by simp
qed

text \<open>
  C5 when descriptor 6 arrives for the identity that has descriptor 5 cached, a state the
  wrapper reaches by reading descriptor 5.
\<close>

theorem C5_first_descriptor_wins_witness:
  "arrival dup_once_os 6 one_cached = Inr (fst one_cached, (snd one_cached)\<lparr>closedFDs := [6]\<rparr>) \<and>
   Read dup_once_os 1 (Msgs [Some [6]]) None one_cached =
     Inr ((1, None), fst one_cached, (snd one_cached)\<lparr>closedFDs := [6]\<rparr>) \<and>
   map_of (recvedFDs (fst one_cached)) \<lparr>dev = 1, ino = 2\<rparr> = Some 5 \<and>
   reachable one_cached \<and> distinct (map fst (recvedFDs (fst one_cached)))"
proof -
  have first: "Read dup_once_os 1 (Msgs [Some [5]]) None (wrapConn, new_world) =
                 Inr ((1, None), one_cached)"
    by (simp add: one_cached_def wrapConn_def new_world_def dup_once_os_def Read_def
        arrival.simps Let_def waiters_def)
  have reach: "reachable one_cached"
    by (rule reach_Read [OF reach_new first])
  have st: "Fstat dup_once_os 6 = Inr \<lparr>Dev = 1, Ino = 2\<rparr>" by (simp add: dup_once_os_def)
  have old: "map_of (recvedFDs (fst one_cached))
               \<lparr>dev = Dev \<lparr>Dev = 1, Ino = 2\<rparr>, ino = Ino \<lparr>Dev = 1, Ino = 2\<rparr>\<rparr> = Some 5"
    by (simp add: one_cached_def)
  have run: "Read dup_once_os 1 (Msgs [Some [6]]) None one_cached =
     Inr ((1, None), fst one_cached, (snd one_cached)\<lparr>closedFDs := [6]\<rparr>)"
    by (simp add: one_cached_def dup_once_os_def Read_def arrival.simps Let_def syscall_Close_def)
  have d: "distinct (map fst (recvedFDs (fst one_cached)))" by (simp add: one_cached_def)
  from C5_first_descriptor_wins [of dup_once_os 6 "\<lparr>Dev = 1, Ino = 2\<rparr>" "fst one_cached" 5
      "snd one_cached" 1 "Msgs [Some [6]]" None "(1, None)" "fst one_cached"
      "(snd one_cached)\<lparr>closedFDs := [6]\<rparr>" "fst one_cached" "snd one_cached"]
  show ?thesis using st old run d reach by (simp add: one_cached_def)
qed

end
